theory Spec2Isabelle
  imports Main "HOL-Library.Monad_Syntax" "HOL-Library.Multiset"
begin

section \<open>Go strings, runes and the library functions the package calls\<close>

text \<open>
  A Go \<^verbatim>\<open>string\<close> is a sequence of bytes, so it is a \<^typ>\<open>string\<close> (a list of 8-bit
  characters); offsets and \<^verbatim>\<open>len\<close> count bytes. A rune is a code point, a natural number.
\<close>

type_synonym rune = nat

definition RuneError :: rune where
  "RuneError = 0xFFFD"

text \<open>
  \<^verbatim>\<open>utf8.DecodeRuneInString\<close> of the Go library: the first rune of the string and its
  width in bytes; \<^verbatim>\<open>(RuneError, 0)\<close> on the empty string and \<^verbatim>\<open>(RuneError, 1)\<close> on a
  byte that starts no well-formed encoding. The library reads the length of the sequence
  and the range accepted for the second byte from its table \<^verbatim>\<open>first\<close>, indexed by the
  first byte (from \<^verbatim>\<open>0xC2\<close> to \<^verbatim>\<open>0xF4\<close>; the others are ASCII or invalid).
\<close>

definition seq_size :: "nat \<Rightarrow> nat" where
  "seq_size s0 = (if s0 < 0xE0 then 2 else if s0 < 0xF0 then 3 else 4)"

definition accept_lo :: "nat \<Rightarrow> nat" where
  "accept_lo s0 = (if s0 = 0xE0 then 0xA0 else if s0 = 0xF0 then 0x90 else 0x80)"

definition accept_hi :: "nat \<Rightarrow> nat" where
  "accept_hi s0 = (if s0 = 0xED then 0x9F else if s0 = 0xF4 then 0x8F else 0xBF)"

text \<open>A continuation byte, between \<^verbatim>\<open>locb\<close> and \<^verbatim>\<open>hicb\<close>.\<close>

definition is_cont :: "nat \<Rightarrow> bool" where
  "is_cont b = (0x80 \<le> b \<and> b \<le> 0xBF)"

text \<open>
  The code points of two, three and four bytes. The masks \<^verbatim>\<open>&0x1F\<close>, \<^verbatim>\<open>&0x0F\<close>,
  \<^verbatim>\<open>&0x07\<close> and \<^verbatim>\<open>&0x3F\<close> are written \<open>mod\<close>, the shifts as products.
\<close>

definition rune2 :: "nat \<Rightarrow> nat \<Rightarrow> rune" where
  "rune2 s0 s1 = (s0 mod 32) * 64 + s1 mod 64"

definition rune3 :: "nat \<Rightarrow> nat \<Rightarrow> nat \<Rightarrow> rune" where
  "rune3 s0 s1 s2 = (s0 mod 16) * 4096 + (s1 mod 64) * 64 + s2 mod 64"

definition rune4 :: "nat \<Rightarrow> nat \<Rightarrow> nat \<Rightarrow> nat \<Rightarrow> rune" where
  "rune4 s0 s1 s2 s3 = (s0 mod 8) * 262144 + (s1 mod 64) * 4096 + (s2 mod 64) * 64 + s3 mod 64"

fun DecodeRuneInString :: "string \<Rightarrow> rune \<times> nat" where
  "DecodeRuneInString [] = (RuneError, 0)"
| "DecodeRuneInString (c0 # s) =
    (let s0 = (of_char c0 :: nat) in
     if s0 < 0x80 then (s0, 1)
     else if s0 < 0xC2 \<or> 0xF4 < s0 then (RuneError, 1)
     else if length (c0 # s) < seq_size s0 then (RuneError, 1)
     else if of_char (s ! 0) < accept_lo s0 \<or> accept_hi s0 < of_char (s ! 0) then (RuneError, 1)
     else if seq_size s0 \<le> 2 then (rune2 s0 (of_char (s ! 0)), 2)
     else if \<not> is_cont (of_char (s ! 1)) then (RuneError, 1)
     else if seq_size s0 \<le> 3 then (rune3 s0 (of_char (s ! 0)) (of_char (s ! 1)), 3)
     else if \<not> is_cont (of_char (s ! 2)) then (RuneError, 1)
     else (rune4 s0 (of_char (s ! 0)) (of_char (s ! 1)) (of_char (s ! 2)), 4))"

declare DecodeRuneInString.simps(2) [simp del]

text \<open>
  \<^verbatim>\<open>unicode.IsSpace\<close>: in Latin-1 the eight characters the library lists, beyond it the
  White_Space property.
\<close>

definition IsSpace :: "rune \<Rightarrow> bool" where
  "IsSpace r =
     (if r \<le> 0xFF then r = 9 \<or> r = 10 \<or> r = 11 \<or> r = 12 \<or> r = 13 \<or> r = 32 \<or> r = 0x85 \<or> r = 0xA0
      else r = 0x1680 \<or> (0x2000 \<le> r \<and> r \<le> 0x200A) \<or> r = 0x2028 \<or> r = 0x2029
           \<or> r = 0x202F \<or> r = 0x205F \<or> r = 0x3000)"

text \<open>
  The Unicode categories \<^verbatim>\<open>\p{L}\<close> and \<^verbatim>\<open>\p{N}\<close> are tables of the Go toolchain, not of
  this package: beyond ASCII they are a parameter of the model. On ASCII the letters are
  \<^verbatim>\<open>A-Z\<close>, \<^verbatim>\<open>a-z\<close> and the numbers \<^verbatim>\<open>0-9\<close>.
\<close>

record unicode_tables =
  letter_table :: "rune \<Rightarrow> bool"
  number_table :: "rune \<Rightarrow> bool"

definition is_L :: "unicode_tables \<Rightarrow> rune \<Rightarrow> bool" where
  "is_L T r = (if r < 0x80 then (0x41 \<le> r \<and> r \<le> 0x5A) \<or> (0x61 \<le> r \<and> r \<le> 0x7A)
               else letter_table T r)"

definition is_N :: "unicode_tables \<Rightarrow> rune \<Rightarrow> bool" where
  "is_N T r = (if r < 0x80 then 0x30 \<le> r \<and> r \<le> 0x39 else number_table T r)"

subsection \<open>\<^verbatim>\<open>net/url\<close>: PathEscape and PathUnescape\<close>

text \<open>
  \<^verbatim>\<open>shouldEscape(c, encodePathSegment)\<close>: letters, digits, \<^verbatim>\<open>-_.~\<close> and \<^verbatim>\<open>$&+:=@\<close> stay;
  every other byte, \<^verbatim>\<open>/\<close>, \<^verbatim>\<open>;\<close>, \<^verbatim>\<open>,\<close>, \<^verbatim>\<open>?\<close> and \<^verbatim>\<open>%\<close> among them, is escaped.
\<close>

definition shouldEscape :: "char \<Rightarrow> bool" where
  "shouldEscape c =
     (let n = (of_char c :: nat) in
      if (0x61 \<le> n \<and> n \<le> 0x7A) \<or> (0x41 \<le> n \<and> n \<le> 0x5A) \<or> (0x30 \<le> n \<and> n \<le> 0x39) then False
      else if c = CHR ''-'' \<or> c = CHR ''_'' \<or> c = CHR ''.'' \<or> c = CHR ''~'' then False
      else if c = CHR ''$'' \<or> c = CHR ''&'' \<or> c = CHR ''+'' \<or> c = CHR '','' \<or> c = CHR ''/''
              \<or> c = CHR '':'' \<or> c = CHR '';'' \<or> c = CHR ''='' \<or> c = CHR ''?'' \<or> c = CHR ''@''
           then c = CHR ''/'' \<or> c = CHR '';'' \<or> c = CHR '','' \<or> c = CHR ''?''
      else True)"

definition upperhex :: string where
  "upperhex = ''0123456789ABCDEF''"

fun PathEscape :: "string \<Rightarrow> string" where
  "PathEscape [] = []"
| "PathEscape (c # s) =
     (if shouldEscape c
      then CHR ''%'' # upperhex ! (of_char c div 16) # upperhex ! (of_char c mod 16) # PathEscape s
      else c # PathEscape s)"

definition ishex :: "char \<Rightarrow> bool" where
  "ishex c = (let n = (of_char c :: nat) in
     (0x30 \<le> n \<and> n \<le> 0x39) \<or> (0x61 \<le> n \<and> n \<le> 0x66) \<or> (0x41 \<le> n \<and> n \<le> 0x46))"

definition unhex :: "char \<Rightarrow> nat" where
  "unhex c = (let n = (of_char c :: nat) in
     if 0x30 \<le> n \<and> n \<le> 0x39 then n - 0x30
     else if 0x61 \<le> n \<and> n \<le> 0x66 then n - 0x61 + 10
     else if 0x41 \<le> n \<and> n \<le> 0x46 then n - 0x41 + 10
     else 0)"

text \<open>The first loop of \<^verbatim>\<open>unescape\<close>: every \<^verbatim>\<open>%\<close> is followed by two hex digits.\<close>

fun unescape_wellformed :: "string \<Rightarrow> bool" where
  "unescape_wellformed [] = True"
| "unescape_wellformed (c # s) =
     (if c = CHR ''%''
      then (case s of h1 # h2 # s' \<Rightarrow> ishex h1 \<and> ishex h2 \<and> unescape_wellformed s' | _ \<Rightarrow> False)
      else unescape_wellformed s)"

text \<open>The second loop: each escape becomes the byte \<^verbatim>\<open>unhex(s[i+1])<<4 | unhex(s[i+2])\<close>.\<close>

fun unescape_bytes :: "string \<Rightarrow> string" where
  "unescape_bytes [] = []"
| "unescape_bytes (c # s) =
     (if c = CHR ''%''
      then (case s of h1 # h2 # s' \<Rightarrow> char_of (unhex h1 * 16 + unhex h2) # unescape_bytes s'
                    | _ \<Rightarrow> [])
      else c # unescape_bytes s)"

text \<open>\<^verbatim>\<open>url.PathUnescape\<close>: \<open>None\<close> is the \<^verbatim>\<open>EscapeError\<close>, returned with the empty string.\<close>

definition PathUnescape :: "string \<Rightarrow> string option" where
  "PathUnescape s = (if unescape_wellformed s then Some (unescape_bytes s) else None)"

text \<open>
  \<^verbatim>\<open>s, _ = url.PathUnescape(x)\<close>: the error is dropped and \<^verbatim>\<open>s\<close> is the string the
  library returns with it, the empty one.
\<close>

definition PathUnescape_ignoring_error :: "string \<Rightarrow> string" where
  "PathUnescape_ignoring_error x = (case PathUnescape x of Some s \<Rightarrow> s | None \<Rightarrow> [])"

text \<open>\<^verbatim>\<open>strings.Split(s, "/")\<close>, for a separator of one byte.\<close>

fun Split :: "char \<Rightarrow> string \<Rightarrow> string list" where
  "Split sep [] = [[]]"
| "Split sep (c # s) =
     (if c = sep then [] # Split sep s
      else (case Split sep s of [] \<Rightarrow> [[c]] | x # xs \<Rightarrow> (c # x) # xs))"

text \<open>Slicing \<^verbatim>\<open>s[a:b]\<close>: a run-time panic (\<open>None\<close>) unless \<open>a \<le> b \<le> len(s)\<close>.\<close>

definition slice :: "string \<Rightarrow> nat \<Rightarrow> nat \<Rightarrow> string option" where
  "slice s a b = (if a \<le> b \<and> b \<le> length s then Some (take (b - a) (drop a s)) else None)"

text \<open>Indexing \<^verbatim>\<open>p[i]\<close> of an \<^verbatim>\<open>[]int\<close>: a run-time panic (\<open>None\<close>) out of range.\<close>

definition index :: "nat list \<Rightarrow> nat \<Rightarrow> nat option" where
  "index p i = (if i < length p then Some (p ! i) else None)"

text \<open>The substring between two offsets delivered by the matcher (they are in range).\<close>

definition substr :: "string \<Rightarrow> nat \<Rightarrow> nat \<Rightarrow> string" where
  "substr s a b = take (b - a) (drop a s)"


section \<open>The three patterns\<close>

text \<open>
  The patterns are matched by Go's \<^verbatim>\<open>regexp\<close> package, whose matches are the ones a
  backtracking search finds first: the leftmost start, an earlier alternative before a later
  one, and for \<^verbatim>\<open>?\<close>, \<^verbatim>\<open>*\<close>, \<^verbatim>\<open>+\<close> one more repetition before one fewer. The text is read
  rune by rune with \<^const>\<open>DecodeRuneInString\<close>. Each pattern is written out below as the
  search of that engine for it; a match is the list of its capture offsets
  \<^verbatim>\<open>[m0, m1, g1s, g1e, ...]\<close> as the library delivers them.
\<close>

lemma DecodeRuneInString_width_pos:
  "s \<noteq> [] \<Longrightarrow> 0 < snd (DecodeRuneInString s)"
  by (cases s) (simp_all add: DecodeRuneInString.simps(2) Let_def)

lemma DecodeRuneInString_width:
  "(r, w) = DecodeRuneInString s \<Longrightarrow> s \<noteq> [] \<Longrightarrow> 0 < w"
  using DecodeRuneInString_width_pos [of s] by (metis snd_conv)

text \<open>
  A repetition \<^verbatim>\<open>[class]*\<close> taken as far as it goes: the number of bytes of the longest
  prefix of runes of the class. It is used where no shorter repetition can match: what
  follows the repetition starts with a rune outside the class, or matches the empty string.
\<close>

function cls_run :: "(rune \<Rightarrow> bool) \<Rightarrow> string \<Rightarrow> nat" where
  "cls_run P s =
     (if s = [] then 0
      else (case DecodeRuneInString s of (r, w) \<Rightarrow>
              if P r then w + cls_run P (drop w s) else 0))"
  by pat_completeness auto
termination
  by (relation "measure (\<lambda>(P, s). length s)") (auto dest: DecodeRuneInString_width)

declare cls_run.simps [simp del]

text \<open>A literal: the rest of the string after it.\<close>

definition lit :: "string \<Rightarrow> string \<Rightarrow> string option" where
  "lit p s = (if take (length p) s = p then Some (drop (length p) s) else None)"

subsection \<open>Tags\<close>

text \<open>
  \<^verbatim>\<open>(^|.?)#([\p{L}][-\p{L}\p{N}/$_\<close>\<section>\<^verbatim>\<open>%=+\<close>\<degree>\<^verbatim>\<open>({[\\@]*)(.?|$)\<close>

  The class of the second and later characters of a name.
\<close>

definition tag_class :: "unicode_tables \<Rightarrow> rune \<Rightarrow> bool" where
  "tag_class T r =
     (r = 0x2D \<or> is_L T r \<or> is_N T r \<or> r = 0x2F \<or> r = 0x24 \<or> r = 0x5F \<or> r = 0xA7 \<or> r = 0x25
      \<or> r = 0x3D \<or> r = 0x2B \<or> r = 0xB0 \<or> r = 0x28 \<or> r = 0x7B \<or> r = 0x5B \<or> r = 0x5C \<or> r = 0x40)"

text \<open>
  \<^verbatim>\<open>#([\p{L}][...]*)(.?|$)\<close> at the head of the string: the bytes of the name and of the
  third group. The last group matches the empty string when \<^verbatim>\<open>.\<close> cannot match (at the end
  and before a newline), so the name is as long as it can be.
\<close>

definition tag_core :: "unicode_tables \<Rightarrow> string \<Rightarrow> (nat \<times> nat) option" where
  "tag_core T s =
     (case s of [] \<Rightarrow> None
      | c # s1 \<Rightarrow>
          if c \<noteq> CHR ''#'' then None
          else (case DecodeRuneInString s1 of (r, w) \<Rightarrow>
            if w = 0 \<or> \<not> is_L T r then None
            else let n = w + cls_run (tag_class T) (drop w s1) in
              (case DecodeRuneInString (drop n s1) of (r2, w2) \<Rightarrow>
                 Some (n, if 0 < w2 \<and> r2 \<noteq> 10 then w2 else 0))))"

definition tag_caps :: "nat \<Rightarrow> nat \<times> nat \<Rightarrow> nat list" where
  "tag_caps b na =
     (case na of (n, a) \<Rightarrow>
        [0, b + 1 + n + a, 0, b, b + 1, b + 1 + n, b + 1 + n, b + 1 + n + a])"

text \<open>
  The pattern at one start position; \<open>bol\<close> says that the position is the beginning of the
  text. The first group tries \<^verbatim>\<open>^\<close>, then one rune other than a newline, then nothing.
\<close>

definition reTag_here :: "unicode_tables \<Rightarrow> bool \<Rightarrow> string \<Rightarrow> nat list option" where
  "reTag_here T bol s =
     (case (if bol then tag_core T s else None) of
        Some na \<Rightarrow> Some (tag_caps 0 na)
      | None \<Rightarrow>
          (case DecodeRuneInString s of (r, w) \<Rightarrow>
             (case (if 0 < w \<and> r \<noteq> 10 then tag_core T (drop w s) else None) of
                Some na \<Rightarrow> Some (tag_caps w na)
              | None \<Rightarrow> map_option (tag_caps 0) (tag_core T s))))"

subsection \<open>File attachments\<close>

text \<open>\<^verbatim>\<open><a +href=['"]([^'"]+)['"]>([^<]+)</a>\<close>\<close>

definition quote :: "string \<Rightarrow> string option" where
  "quote s = (case s of [] \<Rightarrow> None
     | c # s' \<Rightarrow> if of_char c = (39 :: nat) \<or> of_char c = (34 :: nat) then Some s' else None)"

definition reFile_here :: "bool \<Rightarrow> string \<Rightarrow> nat list option" where
  "reFile_here bol s = do {
     s1 \<leftarrow> lit ''<a'' s;
     let k = cls_run (\<lambda>r. r = 32) s1;
     s2 \<leftarrow> (if k = 0 then None else lit ''href='' (drop k s1));
     s3 \<leftarrow> quote s2;
     let u = cls_run (\<lambda>r. r \<noteq> 39 \<and> r \<noteq> 34) s3;
     s4 \<leftarrow> (if u = 0 then None else quote (drop u s3));
     s5 \<leftarrow> lit ''>'' s4;
     let n = cls_run (\<lambda>r. r \<noteq> 60) s5;
     s6 \<leftarrow> (if n = 0 then None else lit ''</a>'' (drop n s5));
     Some [0, k + u + n + 14, k + 8, k + 8 + u, k + u + 10, k + u + 10 + n]
   }"

subsection \<open>Embedded images\<close>

text \<open>
  \<^verbatim>\<open>!\[([^\]]*)]\(([^(]+)\)\<close>

  The second group can be followed by \<^verbatim>\<open>)\<close> at more than one length, since \<^verbatim>\<open>)\<close> is in
  its class: \<open>close_paren\<close> is \<^verbatim>\<open>[^(]*\)\<close>, which takes one more rune first and tries the
  closing parenthesis only where that fails. It returns the bytes of the repetition.
\<close>

function close_paren :: "string \<Rightarrow> nat option" where
  "close_paren s =
     (if s = [] then None
      else (case DecodeRuneInString s of (r, w) \<Rightarrow>
              (case (if r \<noteq> 40 then close_paren (drop w s) else None) of
                 Some n \<Rightarrow> Some (w + n)
               | None \<Rightarrow> if r = 41 then Some 0 else None)))"
  by pat_completeness auto
termination
  by (relation "measure length") (auto dest: DecodeRuneInString_width)

declare close_paren.simps [simp del]

definition reImage_here :: "bool \<Rightarrow> string \<Rightarrow> nat list option" where
  "reImage_here bol s = do {
     s1 \<leftarrow> lit ''!['' s;
     let d = cls_run (\<lambda>r. r \<noteq> 93) s1;
     s2 \<leftarrow> lit ''](''  (drop d s1);
     (case DecodeRuneInString s2 of (r, w) \<Rightarrow>
        if w = 0 \<or> r = 40 then None
        else do {
          n \<leftarrow> close_paren (drop w s2);
          Some [0, d + w + n + 5, 2, 2 + d, d + 4, d + 4 + w + n]
        })
   }"

subsection \<open>Searching\<close>

text \<open>
  The leftmost match at or after \<open>pos\<close>: the start positions are tried in order, one rune
  apart. The offsets of the match are offsets into the whole text.
\<close>

function find_from :: "(bool \<Rightarrow> string \<Rightarrow> nat list option) \<Rightarrow> string \<Rightarrow> nat \<Rightarrow> nat list option" where
  "find_from here s pos =
     (if length s < pos then None
      else (case here (pos = 0) (drop pos s) of
              Some caps \<Rightarrow> Some (map ((+) pos) caps)
            | None \<Rightarrow>
                if length s \<le> pos then None
                else find_from here s (pos + snd (DecodeRuneInString (drop pos s)))))"
  by pat_completeness auto
termination
proof (relation "measure (\<lambda>(here, s, pos). length s - pos)")
  show "wf (measure (\<lambda>(here, s, pos). length s - pos))" by simp
next
  fix here :: "bool \<Rightarrow> string \<Rightarrow> nat list option" and s :: string and pos :: nat
  assume "\<not> length s < pos" and "\<not> length s \<le> pos"
  then have "drop pos s \<noteq> []" by simp
  then have "0 < snd (DecodeRuneInString (drop pos s))"
    by (rule DecodeRuneInString_width_pos)
  with \<open>\<not> length s \<le> pos\<close>
  show "((here, s, pos + snd (DecodeRuneInString (drop pos s))), (here, s, pos))
          \<in> measure (\<lambda>(here, s, pos). length s - pos)"
    by simp
qed

declare find_from.simps [simp del]

definition reTag :: "unicode_tables \<Rightarrow> string \<Rightarrow> nat \<Rightarrow> nat list option" where
  "reTag T = find_from (reTag_here T)"

definition reFile :: "string \<Rightarrow> nat \<Rightarrow> nat list option" where
  "reFile = find_from reFile_here"

definition reImage :: "string \<Rightarrow> nat \<Rightarrow> nat list option" where
  "reImage = find_from reImage_here"

text \<open>
  \<^verbatim>\<open>FindStringSubmatch\<close>: the leftmost match in the string and the text of its groups;
  \<open>None\<close> is the \<^verbatim>\<open>nil\<close> slice of no match.
\<close>

fun submatches :: "string \<Rightarrow> nat list \<Rightarrow> string list" where
  "submatches s (a # b # caps) = substr s a b # submatches s caps"
| "submatches s _ = []"

definition FindStringSubmatch :: "(string \<Rightarrow> nat \<Rightarrow> nat list option) \<Rightarrow> string \<Rightarrow> string list option" where
  "FindStringSubmatch re s = map_option (submatches s) (re s 0)"

text \<open>
  \<^verbatim>\<open>FindAllStringIndex(s, -1)\<close>: the successive matches, each search starting where the
  match before ended. Every pattern of this package consumes at least two bytes, so the
  library's treatment of empty matches is never reached; the model stops there.
\<close>

function allMatches :: "(string \<Rightarrow> nat \<Rightarrow> nat list option) \<Rightarrow> string \<Rightarrow> nat \<Rightarrow> nat list list" where
  "allMatches re s pos =
     (if length s < pos then []
      else (case re s pos of
              None \<Rightarrow> []
            | Some caps \<Rightarrow>
                if length caps < 2 \<or> caps ! 1 \<le> pos then []
                else take 2 caps # allMatches re s (caps ! 1)))"
  by pat_completeness auto
termination
  by (relation "measure (\<lambda>(re, s, pos). length s + 1 - pos)") auto

declare allMatches.simps [simp del]

definition FindAllStringIndex :: "(string \<Rightarrow> nat \<Rightarrow> nat list option) \<Rightarrow> string \<Rightarrow> nat list list" where
  "FindAllStringIndex re s = allMatches re s 0"


section \<open>Tags, files, images and notes\<close>

text \<open>
  The field \<^verbatim>\<open>position\<close> is an \<^verbatim>\<open>[]int\<close>: the match \<^verbatim>\<open>[start, end]\<close>, or \<^verbatim>\<open>nil\<close> (the
  empty list) in the zero value. The fields of the four structs are prefixed with the
  name of their struct.
\<close>

record Tag =
  tag_Name :: string
  tag_position :: "nat list"
  tag_before :: string
  tag_after :: string

definition zero_Tag :: Tag where
  "zero_Tag = \<lparr>tag_Name = [], tag_position = [], tag_before = [], tag_after = []\<rparr>"

definition NewTag :: "unicode_tables \<Rightarrow> string \<Rightarrow> nat list \<Rightarrow> Tag" where
  "NewTag T content position =
     (case FindStringSubmatch (reTag T) content of
        None \<Rightarrow> zero_Tag
      | Some parts \<Rightarrow>
          let beforeIsEmpty = (length (parts ! 1) = 0);
              before = fst (DecodeRuneInString (parts ! 1));
              beforeIsSpace = IsSpace before;
              afterIsEmpty = (length (parts ! 3) = 0);
              after = fst (DecodeRuneInString (parts ! 3));
              afterIsSpace = IsSpace after
          in if (beforeIsEmpty \<or> beforeIsSpace) \<and> (afterIsEmpty \<or> afterIsSpace)
             then \<lparr>tag_Name = parts ! 2, tag_position = position,
                   tag_before = parts ! 1, tag_after = parts ! 3\<rparr>
             else zero_Tag)"

definition Tag_String :: "Tag \<Rightarrow> string" where
  "Tag_String tag =
     (if length (tag_Name tag) = 0 then tag_before tag @ tag_after tag
      else tag_before tag @ ''#'' @ tag_Name tag @ tag_after tag)"

record File =
  file_Location :: string
  file_Name :: string
  file_position :: "nat list"

definition zero_File :: File where
  "zero_File = \<lparr>file_Location = [], file_Name = [], file_position = []\<rparr>"

definition NewFile :: "string \<Rightarrow> nat list \<Rightarrow> File" where
  "NewFile content position =
     (case FindStringSubmatch reFile content of
        None \<Rightarrow> zero_File
      | Some parts \<Rightarrow>
          \<lparr>file_Location = PathUnescape_ignoring_error (parts ! 1),
           file_Name = parts ! 2, file_position = position\<rparr>)"

text \<open>The loop of \<^verbatim>\<open>escapePath\<close> over the components, \<open>i\<close> their index.\<close>

fun escape_components :: "nat \<Rightarrow> string list \<Rightarrow> string \<Rightarrow> string" where
  "escape_components i [] escapedPath = escapedPath"
| "escape_components i (pathComponent # rest) escapedPath =
     escape_components (i + 1) rest
       ((if 0 < i then escapedPath @ ''/'' else escapedPath) @ PathEscape pathComponent)"

definition escapePath :: "string \<Rightarrow> string" where
  "escapePath path = escape_components 0 (Split CHR ''/'' path) []"

definition File_String :: "File \<Rightarrow> string" where
  "File_String file = ''['' @ file_Name file @ ''](''  @ escapePath (file_Location file) @ '')''"

record Image =
  image_Location :: string
  image_Description :: string
  image_position :: "nat list"

definition zero_Image :: Image where
  "zero_Image = \<lparr>image_Location = [], image_Description = [], image_position = []\<rparr>"

definition NewImage :: "string \<Rightarrow> nat list \<Rightarrow> Image" where
  "NewImage content position =
     (case FindStringSubmatch reImage content of
        None \<Rightarrow> zero_Image
      | Some parts \<Rightarrow>
          \<lparr>image_Location = PathUnescape_ignoring_error (parts ! 2),
           image_Description = parts ! 1, image_position = position\<rparr>)"

definition Image_String :: "Image \<Rightarrow> string" where
  "Image_String img =
     ''!['' @ image_Description img @ ''](''  @ escapePath (image_Location img) @ '')''"

record Note =
  note_Tags :: "Tag list"
  note_Files :: "File list"
  note_Images :: "Image list"
  note_content :: string

definition LoadNote :: "unicode_tables \<Rightarrow> string \<Rightarrow> Note" where
  "LoadNote T content =
     \<lparr>note_Tags =
        filter (\<lambda>tag. 0 < length (tag_Name tag))
          (map (\<lambda>match. NewTag T (substr content (match ! 0) (match ! 1)) match)
               (FindAllStringIndex (reTag T) content)),
      note_Files =
        map (\<lambda>match. NewFile (substr content (match ! 0) (match ! 1)) match)
            (FindAllStringIndex reFile content),
      note_Images =
        map (\<lambda>match. NewImage (substr content (match ! 0) (match ! 1)) match)
            (FindAllStringIndex reImage content),
      note_content = content\<rparr>"

section \<open>Writing a note\<close>

record updatedItem =
  item_content :: string
  item_position :: "nat list"

text \<open>
  The comparison handed to \<^verbatim>\<open>sort.Slice\<close>: the start of the one item against the end of
  the other, \<^verbatim>\<open>items[i].position[0] < items[j].position[1]\<close>.
\<close>

definition item_less :: "updatedItem \<Rightarrow> updatedItem \<Rightarrow> bool option" where
  "item_less a b = do {
     p \<leftarrow> index (item_position a) 0;
     q \<leftarrow> index (item_position b) 1;
     Some (p < q)
   }"

text \<open>
  \<^verbatim>\<open>sort.Slice\<close> is library code. The model is its insertion sort, the algorithm the
  library runs on short slices:
  \<^verbatim>\<open>for i := a+1; i < b; i++ { for j := i; j > a && less(j, j-1); j-- { swap(j, j-1) } }\<close>.
  \<open>insert_down lessfn x pre\<close> is the inner loop: \<open>pre\<close> is the part before \<open>x\<close>, the nearest
  element first, and the result is that part with \<open>x\<close> moved down into it, in the same
  order. A comparison that panics ends the sort.
\<close>

fun insert_down :: "('a \<Rightarrow> 'a \<Rightarrow> bool option) \<Rightarrow> 'a \<Rightarrow> 'a list \<Rightarrow> 'a list option" where
  "insert_down lessfn x [] = Some [x]"
| "insert_down lessfn x (y # ys) =
     (case lessfn x y of
        None \<Rightarrow> None
      | Some True \<Rightarrow> map_option ((#) y) (insert_down lessfn x ys)
      | Some False \<Rightarrow> Some (x # y # ys))"

fun insertionSort :: "('a \<Rightarrow> 'a \<Rightarrow> bool option) \<Rightarrow> 'a list \<Rightarrow> 'a list \<Rightarrow> 'a list option" where
  "insertionSort lessfn pre [] = Some (rev pre)"
| "insertionSort lessfn pre (x # xs) =
     (case insert_down lessfn x pre of
        None \<Rightarrow> None
      | Some pre' \<Rightarrow> insertionSort lessfn pre' xs)"

definition sort_Slice :: "('a \<Rightarrow> 'a \<Rightarrow> bool option) \<Rightarrow> 'a list \<Rightarrow> 'a list option" where
  "sort_Slice lessfn items = insertionSort lessfn [] items"

text \<open>
  The last loop of \<^verbatim>\<open>WriteNote\<close>: \<open>current\<close> is the cursor into the content, and the result
  is what the loop and the statement after it append to \<^verbatim>\<open>newContent\<close>.
\<close>

fun write_items :: "string \<Rightarrow> nat \<Rightarrow> updatedItem list \<Rightarrow> string option" where
  "write_items content current [] = slice content current (length content)"
| "write_items content current (item # items) = do {
     start \<leftarrow> index (item_position item) 0;
     excerpt \<leftarrow> slice content current start;
     current' \<leftarrow> index (item_position item) 1;
     rest \<leftarrow> write_items content current' items;
     Some (excerpt @ item_content item @ rest)
   }"

text \<open>The first three loops of \<^verbatim>\<open>WriteNote\<close>: tags, files and images in one list.\<close>

definition note_items :: "Note \<Rightarrow> updatedItem list" where
  "note_items note =
     map (\<lambda>item. \<lparr>item_content = Tag_String item, item_position = tag_position item\<rparr>)
         (note_Tags note)
     @ map (\<lambda>item. \<lparr>item_content = File_String item, item_position = file_position item\<rparr>)
           (note_Files note)
     @ map (\<lambda>item. \<lparr>item_content = Image_String item, item_position = image_position item\<rparr>)
           (note_Images note)"

text \<open>\<open>None\<close> is a run-time panic: an index or a slice out of range.\<close>

definition WriteNote :: "Note \<Rightarrow> string option" where
  "WriteNote note = do {
     sorted \<leftarrow> sort_Slice item_less (note_items note);
     write_items (note_content note) 0 sorted
   }"

text \<open>
  The assignment \<^verbatim>\<open>note.Tags[i].Name = name\<close>, as the tests make it between \<^verbatim>\<open>LoadNote\<close> and
  \<^verbatim>\<open>WriteNote\<close>; \<open>None\<close> is the panic of an index out of range.
\<close>

definition set_tag_Name :: "nat \<Rightarrow> string \<Rightarrow> Note \<Rightarrow> Note option" where
  "set_tag_Name i name note =
     (if i < length (note_Tags note)
      then Some (note\<lparr>note_Tags := (note_Tags note)[i := (note_Tags note ! i)\<lparr>tag_Name := name\<rparr>]\<rparr>)
      else None)"

section \<open>Spans, and the serializer of the specification\<close>

text \<open>
  A span \<^verbatim>\<open>[start, end]\<close> of a text: two offsets, the range between them not empty and
  inside the text.
\<close>

definition span_in :: "string \<Rightarrow> nat list \<Rightarrow> bool" where
  "span_in content p = (length p = 2 \<and> p ! 0 < p ! 1 \<and> p ! 1 \<le> length content)"

text \<open>Two spans do not overlap: one ends where or before the other starts.\<close>

definition disjoint_spans :: "nat list \<Rightarrow> nat list \<Rightarrow> bool" where
  "disjoint_spans p q = (p ! 1 \<le> q ! 0 \<or> q ! 1 \<le> p ! 0)"

fun nonoverlapping :: "nat list list \<Rightarrow> bool" where
  "nonoverlapping [] = True"
| "nonoverlapping (p # ps) = (list_all (disjoint_spans p) ps \<and> nonoverlapping ps)"

text \<open>
  Spans in ascending order between two offsets: each one not empty, each one starting
  where or after the one before it ends.
\<close>

fun spans_between :: "nat \<Rightarrow> nat \<Rightarrow> nat list list \<Rightarrow> bool" where
  "spans_between lo hi [] = (lo \<le> hi)"
| "spans_between lo hi (p # ps) =
     (length p = 2 \<and> lo \<le> p ! 0 \<and> p ! 0 < p ! 1 \<and> spans_between (p ! 1) hi ps)"

text \<open>The spans of all the items of a note: tags, files, images.\<close>

definition note_spans :: "Note \<Rightarrow> nat list list" where
  "note_spans note =
     map tag_position (note_Tags note) @ map file_position (note_Files note)
     @ map image_position (note_Images note)"

text \<open>
  The serializer as the specification words it (4.4): the items are sorted by the start of
  their span, by a stable sort, and a cursor walks the text: for each item the original text
  from the cursor to the start of the span, then the rendered item, the cursor moving to
  the end of the span; after the last item the rest of the text.
\<close>

fun splice :: "string \<Rightarrow> nat \<Rightarrow> updatedItem list \<Rightarrow> string" where
  "splice text cursor [] = drop cursor text"
| "splice text cursor (item # items) =
     take (item_position item ! 0 - cursor) (drop cursor text)
     @ item_content item @ splice text (item_position item ! 1) items"

definition render_by_start :: "Note \<Rightarrow> string" where
  "render_by_start note =
     splice (note_content note) 0 (sort_key (\<lambda>item. item_position item ! 0) (note_items note))"

subsection \<open>The names of tags\<close>

text \<open>
  The runes of a string, as \<^verbatim>\<open>for _, r := range s\<close> delivers them.
\<close>

function runes :: "string \<Rightarrow> rune list" where
  "runes s =
     (if s = [] then []
      else (case DecodeRuneInString s of (r, w) \<Rightarrow> r # runes (drop w s)))"
  by pat_completeness auto
termination
  by (relation "measure length") (auto dest: DecodeRuneInString_width)

declare runes.simps [simp del]

text \<open>
  A name as the second group of the tag pattern words it: one letter, then any number of
  characters of the class.
\<close>

definition is_tag_name :: "unicode_tables \<Rightarrow> string \<Rightarrow> bool" where
  "is_tag_name T name =
     (case runes name of [] \<Rightarrow> False
      | r # rs \<Rightarrow> is_L T r \<and> list_all (tag_class T) rs)"

text \<open>The ASCII whitespace that \<^verbatim>\<open>.\<close> matches: every one but the newline.\<close>

definition is_blank :: "char \<Rightarrow> bool" where
  "is_blank c =
     (of_char c = (9 :: nat) \<or> of_char c = (11 :: nat) \<or> of_char c = (12 :: nat)
      \<or> of_char c = (13 :: nat) \<or> of_char c = (32 :: nat))"

text \<open>
  The tables cut off after Latin-1 (\<^verbatim>\<open>\p{L}\<close> and \<^verbatim>\<open>\p{N}\<close> below \<^verbatim>\<open>U+0100\<close>), for the
  examples.
\<close>

definition tables_Latin1 :: unicode_tables where
  "tables_Latin1 =
     \<lparr>letter_table = (\<lambda>r. r = 0xAA \<or> r = 0xB5 \<or> r = 0xBA \<or> (0xC0 \<le> r \<and> r \<le> 0xD6)
                           \<or> (0xD8 \<le> r \<and> r \<le> 0xF6) \<or> (0xF8 \<le> r \<and> r \<le> 0xFF)),
      number_table = (\<lambda>r. r = 0xB2 \<or> r = 0xB3 \<or> r = 0xB9 \<or> (0xBC \<le> r \<and> r \<le> 0xBE))\<rparr>"

section \<open>Evaluation on ASCII text\<close>

lemma decode_ascii:
  "of_char c < (128::nat) \<Longrightarrow> DecodeRuneInString (c # s) = (of_char c, 1)"
  by (simp add: DecodeRuneInString.simps(2))

lemma cls_run_Nil: "cls_run P [] = 0"
  by (simp add: cls_run.simps)

lemma cls_run_ascii:
  "of_char c < (128::nat) \<Longrightarrow>
     cls_run P (c # s) = (if P (of_char c) then 1 + cls_run P s else 0)"
  by (subst cls_run.simps) (simp add: decode_ascii)

lemma close_paren_Nil: "close_paren [] = None"
  by (simp add: close_paren.simps)

lemma close_paren_ascii:
  "of_char c < (128::nat) \<Longrightarrow>
     close_paren (c # s) =
       (case (if of_char c \<noteq> (40::nat) then close_paren s else None) of
          Some n \<Rightarrow> Some (1 + n)
        | None \<Rightarrow> if of_char c = (41::nat) then Some 0 else None)"
  by (subst close_paren.simps) (simp add: decode_ascii split: option.split)

lemmas load_simps =
  decode_ascii cls_run_Nil cls_run_ascii close_paren_Nil close_paren_ascii
  tag_core_def reTag_here_def tag_caps_def reTag_def find_from.simps
  is_L_def is_N_def tag_class_def FindAllStringIndex_def allMatches.simps
  LoadNote_def NewTag_def FindStringSubmatch_def substr_def IsSpace_def
  reFile_def reImage_def reFile_here_def reImage_here_def lit_def quote_def
  NewFile_def NewImage_def PathUnescape_ignoring_error_def PathUnescape_def
  ishex_def unhex_def zero_Tag_def

lemmas write_simps =
  WriteNote_def note_items_def sort_Slice_def item_less_def index_def slice_def
  Tag_String_def File_String_def Image_String_def

section \<open>Facts about decoding\<close>

lemma first_byte_cases:
  fixes n :: nat
  obtains (ascii) "n < 128"
    | (invalid) "128 \<le> n" "n < 194 \<or> 244 < n"
    | (two) "194 \<le> n" "n < 224"
    | (three) "224 \<le> n" "n < 240"
    | (four) "240 \<le> n" "n \<le> 244"
  by arith

lemma decode_two:
  assumes "194 \<le> (of_char c0 :: nat)" "(of_char c0 :: nat) < 224"
  shows "DecodeRuneInString (c0 # s) =
     (if s = [] \<or> \<not> is_cont (of_char (s ! 0)) then (RuneError, 1)
      else (rune2 (of_char c0) (of_char (s ! 0)), 2))"
  using assms
  by (cases s) (auto simp: DecodeRuneInString.simps(2) seq_size_def accept_lo_def accept_hi_def is_cont_def)

lemma decode_three:
  assumes "224 \<le> (of_char c0 :: nat)" "(of_char c0 :: nat) < 240"
  shows "DecodeRuneInString (c0 # s) =
     (if length s < 2 \<or> of_char (s ! 0) < accept_lo (of_char c0) \<or> accept_hi (of_char c0) < of_char (s ! 0)
         \<or> \<not> is_cont (of_char (s ! 1)) then (RuneError, 1)
      else (rune3 (of_char c0) (of_char (s ! 0)) (of_char (s ! 1)), 3))"
  using assms
  by (auto simp: DecodeRuneInString.simps(2) seq_size_def Let_def)

lemma decode_four:
  assumes "240 \<le> (of_char c0 :: nat)" "(of_char c0 :: nat) \<le> 244"
  shows "DecodeRuneInString (c0 # s) =
     (if length s < 3 \<or> of_char (s ! 0) < accept_lo (of_char c0) \<or> accept_hi (of_char c0) < of_char (s ! 0)
         \<or> \<not> is_cont (of_char (s ! 1)) \<or> \<not> is_cont (of_char (s ! 2)) then (RuneError, 1)
      else (rune4 (of_char c0) (of_char (s ! 0)) (of_char (s ! 1)) (of_char (s ! 2)), 4))"
  using assms
  by (auto simp: DecodeRuneInString.simps(2) seq_size_def Let_def)

lemma decode_invalid:
  assumes "128 \<le> (of_char c0 :: nat)" "(of_char c0 :: nat) < 194 \<or> 244 < (of_char c0 :: nat)"
  shows "DecodeRuneInString (c0 # s) = (RuneError, 1)"
  using assms by (auto simp: DecodeRuneInString.simps(2))

lemma accept_lo_ge: "128 \<le> accept_lo n"
  by (simp add: accept_lo_def)

lemma accept_hi_le: "accept_hi n \<le> 191"
  by (simp add: accept_hi_def)

lemma mod_window:
  fixes n :: nat
  assumes "q * m + a \<le> n" and "n < q * m + m"
  shows "a \<le> n mod m"
proof -
  define k where "k = n - q * m"
  have n: "n = q * m + k" and "a \<le> k" and "k < m"
    using assms unfolding k_def by linarith+
  have "(q * m + k) mod m = k" using \<open>k < m\<close> by simp
  with n \<open>a \<le> k\<close> show ?thesis by simp
qed

lemma rune2_ge: "194 \<le> s0 \<Longrightarrow> s0 < 224 \<Longrightarrow> 128 \<le> rune2 s0 s1"
proof -
  assume "194 \<le> s0" "s0 < 224"
  then have "2 \<le> s0 mod 32" using mod_window [of 6 32 2 s0] by simp
  then have "2 * 64 \<le> (s0 mod 32) * 64" by (rule mult_le_mono1)
  then show ?thesis by (simp add: rune2_def)
qed

lemma rune3_ge:
  assumes "224 \<le> s0" "s0 < 240" "accept_lo s0 \<le> s1" "s1 \<le> 191"
  shows "128 \<le> rune3 s0 s1 s2"
proof (cases "s0 = 224")
  case True
  with assms have "160 \<le> s1" "s1 \<le> 191" by (simp_all add: accept_lo_def)
  then have "32 \<le> s1 mod 64" using mod_window [of 2 64 32 s1] by simp
  then have "32 * 64 \<le> (s1 mod 64) * 64" by (rule mult_le_mono1)
  then show ?thesis by (simp add: rune3_def)
next
  case False
  with assms have "1 \<le> s0 mod 16" using mod_window [of 14 16 1 s0] by simp
  then have "1 * 4096 \<le> (s0 mod 16) * 4096" by (rule mult_le_mono1)
  then show ?thesis by (simp add: rune3_def)
qed

lemma rune4_ge:
  assumes "240 \<le> s0" "s0 \<le> 244" "accept_lo s0 \<le> s1" "s1 \<le> 191"
  shows "128 \<le> rune4 s0 s1 s2 s3"
proof (cases "s0 = 240")
  case True
  with assms have "144 \<le> s1" "s1 \<le> 191" by (simp_all add: accept_lo_def)
  then have "16 \<le> s1 mod 64" using mod_window [of 2 64 16 s1] by simp
  then have "16 * 4096 \<le> (s1 mod 64) * 4096" by (rule mult_le_mono1)
  then show ?thesis by (simp add: rune4_def)
next
  case False
  with assms have "1 \<le> s0 mod 8" using mod_window [of 30 8 1 s0] by simp
  then have "1 * 262144 \<le> (s0 mod 8) * 262144" by (rule mult_le_mono1)
  then show ?thesis by (simp add: rune4_def)
qed

text \<open>
  A rune that does not start with an ASCII byte is no ASCII rune, and none of its bytes is
  an ASCII byte.
\<close>

lemma decode_non_ascii:
  assumes "128 \<le> (of_char c :: nat)" and "DecodeRuneInString (c # s) = (r, w)"
  shows "128 \<le> r" and "1 \<le> w" and "w \<le> Suc (length s)"
    and "\<forall>i<w - 1. 128 \<le> (of_char (s ! i) :: nat)"
proof -
  let ?n = "of_char c :: nat"
  have hi: "\<And>x. \<not> accept_hi ?n < x \<Longrightarrow> x \<le> 191"
    using accept_hi_le [of ?n] by simp
  have lo: "\<And>x. \<not> x < accept_lo ?n \<Longrightarrow> 128 \<le> x"
    using accept_lo_ge [of ?n] by simp
  have all: "128 \<le> r \<and> 1 \<le> w \<and> w \<le> Suc (length s) \<and> (\<forall>i<w - 1. 128 \<le> (of_char (s ! i) :: nat))"
  proof (cases ?n rule: first_byte_cases)
    case ascii
    with assms show ?thesis by simp
  next
    case invalid
    with assms show ?thesis by (simp add: decode_invalid RuneError_def)
  next
    case two
    show ?thesis
    proof (cases "s = [] \<or> \<not> is_cont (of_char (s ! 0))")
      case True
      with two assms(2) have "r = RuneError" "w = 1" by (simp_all add: decode_two)
      then show ?thesis by (simp add: RuneError_def)
    next
      case False
      with two assms(2) have rw: "r = rune2 ?n (of_char (s ! 0))" "w = 2"
        by (simp_all add: decode_two)
      from False have "1 \<le> length s" "128 \<le> (of_char (s ! 0) :: nat)"
        by (simp_all add: is_cont_def Suc_le_eq)
      with rw two show ?thesis by (simp add: rune2_ge)
    qed
  next
    case three
    let ?bad = "length s < 2 \<or> of_char (s ! 0) < accept_lo ?n \<or> accept_hi ?n < of_char (s ! 0)
         \<or> \<not> is_cont (of_char (s ! 1))"
    show ?thesis
    proof (cases ?bad)
      case True
      with three assms(2) have "r = RuneError" "w = 1" by (simp_all add: decode_three)
      then show ?thesis by (simp add: RuneError_def)
    next
      case False
      with three assms(2) have rw: "r = rune3 ?n (of_char (s ! 0)) (of_char (s ! 1))" "w = 3"
        by (simp_all add: decode_three)
      from False have f: "2 \<le> length s" "accept_lo ?n \<le> of_char (s ! 0)"
        "of_char (s ! 0) \<le> (191::nat)" "128 \<le> (of_char (s ! 1) :: nat)"
        using hi [of "of_char (s ! 0)"] by (simp_all add: is_cont_def not_less)
      have "128 \<le> (of_char (s ! 0) :: nat)" using f(2) accept_lo_ge [of ?n] by simp
      with f(4) have "\<forall>i<2. 128 \<le> (of_char (s ! i) :: nat)"
        by (simp add: less_Suc_eq numeral_2_eq_2)
      moreover have "128 \<le> r" unfolding rw using three f by (intro rune3_ge)
      ultimately show ?thesis using rw f(1) by simp
    qed
  next
    case four
    let ?bad = "length s < 3 \<or> of_char (s ! 0) < accept_lo ?n \<or> accept_hi ?n < of_char (s ! 0)
         \<or> \<not> is_cont (of_char (s ! 1)) \<or> \<not> is_cont (of_char (s ! 2))"
    show ?thesis
    proof (cases ?bad)
      case True
      with four assms(2) have "r = RuneError" "w = 1" by (simp_all add: decode_four)
      then show ?thesis by (simp add: RuneError_def)
    next
      case False
      with four assms(2) have rw:
        "r = rune4 ?n (of_char (s ! 0)) (of_char (s ! 1)) (of_char (s ! 2))" "w = 4"
        by (simp_all add: decode_four)
      from False have f: "3 \<le> length s" "accept_lo ?n \<le> of_char (s ! 0)"
        "of_char (s ! 0) \<le> (191::nat)" "128 \<le> (of_char (s ! 1) :: nat)"
        "128 \<le> (of_char (s ! 2) :: nat)"
        using hi [of "of_char (s ! 0)"] by (simp_all add: is_cont_def not_less)
      have "128 \<le> (of_char (s ! 0) :: nat)" using f(2) accept_lo_ge [of ?n] by simp
      with f(4,5) have "\<forall>i<3. 128 \<le> (of_char (s ! i) :: nat)"
        by (simp add: less_Suc_eq numeral_3_eq_3 numeral_2_eq_2)
      moreover have "128 \<le> r" unfolding rw using four f by (intro rune4_ge)
      ultimately show ?thesis using rw f(1) by simp
    qed
  qed
  from all show "128 \<le> r" and "1 \<le> w" and "w \<le> Suc (length s)"
    and "\<forall>i<w - 1. 128 \<le> (of_char (s ! i) :: nat)" by simp_all
qed

section \<open>Escaping paths\<close>

lemma upperhex_nth:
  assumes "k < 16"
  shows "unhex (upperhex ! k) = k" and "ishex (upperhex ! k)"
    and "upperhex ! k \<noteq> CHR ''%''" and "upperhex ! k \<noteq> CHR ''/''"
proof -
  from assms have
    "k = 0 \<or> k = 1 \<or> k = 2 \<or> k = 3 \<or> k = 4 \<or> k = 5 \<or> k = 6 \<or> k = 7 \<or> k = 8
      \<or> k = 9 \<or> k = 10 \<or> k = 11 \<or> k = 12 \<or> k = 13 \<or> k = 14 \<or> k = 15"
    by arith
  then show "unhex (upperhex ! k) = k" and "ishex (upperhex ! k)"
    and "upperhex ! k \<noteq> CHR ''%''" and "upperhex ! k \<noteq> CHR ''/''"
    by (auto simp: upperhex_def unhex_def ishex_def)
qed

lemma of_char_nibbles:
  "(of_char c :: nat) div 16 < 16" and "(of_char c :: nat) mod 16 < 16"
proof -
  have "(of_char c :: nat) < 256" by simp
  then show "(of_char c :: nat) div 16 < 16" by arith
  show "(of_char c :: nat) mod 16 < 16" by simp
qed

lemma escape_components_pos:
  "0 < i \<Longrightarrow>
     escape_components i comps acc = acc @ concat (map (\<lambda>pc. ''/'' @ PathEscape pc) comps)"
  by (induction comps arbitrary: i acc) simp_all

lemma Split_not_Nil: "Split sep s \<noteq> []"
  by (induction s) (auto split: list.splits)

lemma escapePath_Nil: "escapePath [] = []"
  by (simp add: escapePath_def)

lemma escapePath_Cons:
  "escapePath (c # s) = (if c = CHR ''/'' then ''/'' else PathEscape [c]) @ escapePath s"
proof -
  obtain x xs where sp: "Split CHR ''/'' s = x # xs"
    using Split_not_Nil [of "CHR ''/''" s] by (cases "Split CHR ''/'' s") auto
  show ?thesis
    by (simp add: escapePath_def sp escape_components_pos)
qed

lemma escapePath_bytes:
  "escapePath p = concat (map (\<lambda>c. if c = CHR ''/'' then [c] else PathEscape [c]) p)"
  by (induction p) (simp_all add: escapePath_Nil escapePath_Cons)

lemma escapePath_append: "escapePath (a @ b) = escapePath a @ escapePath b"
  by (simp add: escapePath_bytes)

lemma shouldEscape_slash: "shouldEscape CHR ''/''"
  by (simp add: shouldEscape_def)

lemma shouldEscape_percent: "shouldEscape CHR ''%''"
  by (simp add: shouldEscape_def)

lemma slash_notin_PathEscape: "CHR ''/'' \<notin> set (PathEscape s)"
proof (induction s)
  case Nil
  show ?case by simp
next
  case (Cons c s)
  have "upperhex ! (of_char c div 16) \<noteq> CHR ''/''"
    and "upperhex ! (of_char c mod 16) \<noteq> CHR ''/''"
    by (simp_all add: upperhex_nth of_char_nibbles)
  with Cons shouldEscape_slash show ?case by auto
qed

lemma unescape_escapePath:
  "unescape_wellformed (escapePath p) \<and> unescape_bytes (escapePath p) = p"
proof (induction p)
  case Nil
  show ?case by (simp add: escapePath_Nil)
next
  case (Cons c p)
  have byte: "char_of ((of_char c :: nat) div 16 * 16 + of_char c mod 16) = c"
    by simp
  show ?case
    using Cons shouldEscape_percent
    by (auto simp: escapePath_Cons upperhex_nth of_char_nibbles byte)
qed

lemma PathUnescape_escapePath: "PathUnescape (escapePath p) = Some p"
  by (simp add: PathUnescape_def unescape_escapePath)

section \<open>Facts about the repetitions\<close>

lemma decode_width_le: "snd (DecodeRuneInString s) \<le> length s"
proof (cases s)
  case Nil
  then show ?thesis by simp
next
  case (Cons c t)
  show ?thesis
  proof (cases "(of_char c :: nat) < 128")
    case True
    then show ?thesis by (simp add: Cons decode_ascii)
  next
    case False
    then show ?thesis
      using decode_non_ascii(3) [of c t "fst (DecodeRuneInString (c # t))" "snd (DecodeRuneInString (c # t))"]
      by (simp add: Cons)
  qed
qed

lemma decode_take:
  assumes "snd (DecodeRuneInString s) \<le> k"
  shows "DecodeRuneInString (take k s) = DecodeRuneInString s"
proof (cases s)
  case Nil
  then show ?thesis by simp
next
  case (Cons c t)
  from assms Cons DecodeRuneInString_width_pos [of s] obtain k' where k: "k = Suc k'"
    by (cases k) auto
  let ?n = "of_char c :: nat"
  let ?x = "take k' t"
  have tk: "take k s = c # ?x" by (simp add: Cons k)
  have nth: "\<And>i. i < length ?x \<Longrightarrow> ?x ! i = t ! i" by simp
  show ?thesis
  proof (cases ?n rule: first_byte_cases)
    case ascii
    then show ?thesis by (simp add: Cons k decode_ascii)
  next
    case invalid
    then show ?thesis by (simp add: Cons k decode_invalid)
  next
    case two
    show ?thesis
    proof (cases "?x = []")
      case True
      then have "k' = 0 \<or> t = []" by simp
      with assms two have "t = [] \<or> \<not> is_cont (of_char (t ! 0))"
        by (auto simp: Cons k decode_two split: if_splits)
      with two True show ?thesis by (auto simp: Cons k decode_two)
    next
      case False
      then have "t \<noteq> []" "?x ! 0 = t ! 0" by auto
      with two False show ?thesis by (simp add: Cons k decode_two)
    qed
  next
    case three
    show ?thesis
    proof (cases "length ?x < 2")
      case True
      then have "k' < 2 \<or> length t < 2" by auto
      with assms three have "DecodeRuneInString (c # t) = (RuneError, 1)"
        by (auto simp: Cons k decode_three split: if_splits)
      with three True show ?thesis by (simp add: Cons k decode_three)
    next
      case False
      then have "\<not> length t < 2" "?x ! 0 = t ! 0" "?x ! 1 = t ! 1" by auto
      with three False show ?thesis by (simp add: Cons k decode_three)
    qed
  next
    case four
    show ?thesis
    proof (cases "length ?x < 3")
      case True
      then have "k' < 3 \<or> length t < 3" by auto
      with assms four have "DecodeRuneInString (c # t) = (RuneError, 1)"
        by (auto simp: Cons k decode_four split: if_splits)
      with four True show ?thesis by (simp add: Cons k decode_four)
    next
      case False
      then have "\<not> length t < 3" "?x ! 0 = t ! 0" "?x ! 1 = t ! 1" "?x ! 2 = t ! 2" by auto
      with four False show ?thesis by (simp add: Cons k decode_four)
    qed
  qed
qed

lemma cls_run_le: "cls_run P s \<le> length s"
proof (induction P s rule: cls_run.induct)
  case (1 P s)
  show ?case
  proof (cases "s = []")
    case True
    then show ?thesis by (simp add: cls_run.simps)
  next
    case False
    obtain r w where d: "DecodeRuneInString s = (r, w)" by (cases "DecodeRuneInString s")
    have w: "w \<le> length s" using decode_width_le [of s] d by simp
    show ?thesis
    proof (cases "P r")
      case True
      with 1 [OF False d [symmetric] True] w False d show ?thesis
        by (subst cls_run.simps) simp
    next
      case no: False
      with False d show ?thesis by (subst cls_run.simps) simp
    qed
  qed
qed

lemma cls_run_take:
  assumes "k = cls_run P s \<or> cls_run P s + snd (DecodeRuneInString (drop (cls_run P s) s)) \<le> k"
  shows "cls_run P (take k s) = cls_run P s"
  using assms
proof (induction P s arbitrary: k rule: cls_run.induct)
  case (1 P s)
  show ?case
  proof (cases "s = []")
    case True
    then show ?thesis by simp
  next
    case False
    obtain r w where d: "DecodeRuneInString s = (r, w)" by (cases "DecodeRuneInString s")
    have wpos: "0 < w" using DecodeRuneInString_width_pos [OF False] d by simp
    show ?thesis
    proof (cases "P r")
      case True
      let ?m' = "cls_run P (drop w s)"
      have m: "cls_run P s = w + ?m'"
        using False d True by (subst cls_run.simps) simp
      from "1.prems" m have kw: "w \<le> k" by auto
      have dt: "DecodeRuneInString (take k s) = (r, w)"
        using decode_take [of s k] d kw by simp
      have ne: "take k s \<noteq> []" using False wpos kw by auto
      have "k - w = ?m' \<or> ?m' + snd (DecodeRuneInString (drop ?m' (drop w s))) \<le> k - w"
        using "1.prems" m by (auto simp: add.commute)
      then have "cls_run P (take (k - w) (drop w s)) = ?m'"
        by (rule "1.IH" [OF False d [symmetric] True])
      then have "cls_run P (drop w (take k s)) = ?m'"
        by (simp add: drop_take)
      with ne dt True m show ?thesis
        by (subst cls_run.simps) simp
    next
      case no: False
      have m: "cls_run P s = 0"
        using False d no by (subst cls_run.simps) simp
      show ?thesis
      proof (cases "take k s = []")
        case True
        show ?thesis unfolding True m by (rule cls_run_Nil)
      next
        case ne: False
        then have "k \<noteq> 0" by auto
        with "1.prems" m d have "w \<le> k" by simp
        then have "DecodeRuneInString (take k s) = (r, w)"
          using decode_take [of s k] d by simp
        with ne no m show ?thesis by (subst cls_run.simps) simp
      qed
    qed
  qed
qed

section \<open>Facts about the tag pattern\<close>

lemma tag_core_SomeE:
  assumes "tag_core T s = Some (n, a)"
  obtains s1 r w r2 w2 where "s = CHR ''#'' # s1"
    and "DecodeRuneInString s1 = (r, w)" and "0 < w" and "is_L T r"
    and "n = w + cls_run (tag_class T) (drop w s1)"
    and "DecodeRuneInString (drop n s1) = (r2, w2)"
    and "a = (if 0 < w2 \<and> r2 \<noteq> 10 then w2 else 0)"
proof (cases s)
  case Nil
  with assms show ?thesis by (simp add: tag_core_def)
next
  case (Cons c s1)
  obtain r w where d: "DecodeRuneInString s1 = (r, w)" by (cases "DecodeRuneInString s1")
  let ?n = "w + cls_run (tag_class T) (drop w s1)"
  obtain r2 w2 where d2: "DecodeRuneInString (drop ?n s1) = (r2, w2)"
    by (cases "DecodeRuneInString (drop ?n s1)")
  from assms Cons d d2 have "c = CHR ''#''" "0 < w" "is_L T r" "n = ?n"
    "a = (if 0 < w2 \<and> r2 \<noteq> 10 then w2 else 0)"
    by (auto simp: tag_core_def Let_def split: if_splits)
  with that [of s1 r w r2 w2] Cons d d2 show ?thesis by simp
qed

lemma tag_core_bounds:
  assumes "tag_core T s = Some (n, a)"
  shows "0 < n" and "1 + n + a \<le> length s"
proof -
  from assms obtain s1 r w r2 w2 where s: "s = CHR ''#'' # s1"
    and d: "DecodeRuneInString s1 = (r, w)" and w: "0 < w"
    and n: "n = w + cls_run (tag_class T) (drop w s1)"
    and d2: "DecodeRuneInString (drop n s1) = (r2, w2)"
    and a: "a = (if 0 < w2 \<and> r2 \<noteq> 10 then w2 else 0)"
    by (rule tag_core_SomeE)
  from w n show "0 < n" by simp
  have "w \<le> length s1" using decode_width_le [of s1] d by simp
  moreover have "cls_run (tag_class T) (drop w s1) \<le> length s1 - w"
    using cls_run_le [of "tag_class T" "drop w s1"] by simp
  ultimately have nl: "n \<le> length s1" using n by simp
  have "w2 \<le> length s1 - n" using decode_width_le [of "drop n s1"] d2 by simp
  then have "a \<le> length s1 - n" using a by simp
  with nl s show "1 + n + a \<le> length s" by simp
qed

lemma tag_core_take:
  assumes "tag_core T s = Some (n, a)"
  shows "tag_core T (take (1 + n + a) s) = Some (n, a)"
proof -
  from assms obtain s1 r w r2 w2 where s: "s = CHR ''#'' # s1"
    and d: "DecodeRuneInString s1 = (r, w)" and w: "0 < w" and L: "is_L T r"
    and n: "n = w + cls_run (tag_class T) (drop w s1)"
    and d2: "DecodeRuneInString (drop n s1) = (r2, w2)"
    and a: "a = (if 0 < w2 \<and> r2 \<noteq> 10 then w2 else 0)"
    by (rule tag_core_SomeE)
  let ?m = "cls_run (tag_class T) (drop w s1)"
  let ?t = "take (n + a) s1"
  have tk: "take (1 + n + a) s = CHR ''#'' # ?t" by (simp add: s)
  have dt: "DecodeRuneInString ?t = (r, w)"
    using decode_take [of s1 "n + a"] d n by simp
  have "n + a - w = ?m \<or> ?m + snd (DecodeRuneInString (drop ?m (drop w s1))) \<le> n + a - w"
    using n a d2 by (auto simp: add.commute)
  then have "cls_run (tag_class T) (take (n + a - w) (drop w s1)) = ?m"
    by (rule cls_run_take)
  then have run: "cls_run (tag_class T) (drop w ?t) = ?m"
    by (simp add: drop_take)
  have "DecodeRuneInString (take a (drop n s1)) = (if a = 0 then (RuneError, 0) else (r2, w2))"
    using decode_take [of "drop n s1" a] d2 a by (auto split: if_splits)
  then have d2t: "DecodeRuneInString (drop n ?t) = (if a = 0 then (RuneError, 0) else (r2, w2))"
    by (simp add: drop_take)
  show ?thesis
    unfolding tk using dt w L run n d2t a
    by (auto simp: tag_core_def Let_def split: if_splits)
qed

lemma tag_core_hash_hash: "tag_core T (CHR ''#'' # CHR ''#'' # x) = None"
  by (simp add: tag_core_def decode_ascii is_L_def)

section \<open>Facts about one match of the tag pattern\<close>

lemma reTag_here_SomeE:
  assumes "reTag_here T bol s = Some caps"
  obtains b n a where "caps = tag_caps b (n, a)" and "tag_core T (drop b s) = Some (n, a)"
    and "b = 0 \<or> (0 < b \<and> b = snd (DecodeRuneInString s) \<and> fst (DecodeRuneInString s) \<noteq> 10)"
proof -
  obtain r w where d: "DecodeRuneInString s = (r, w)" by (cases "DecodeRuneInString s")
  from assms d have
    "(\<exists>na. tag_core T s = Some na \<and> caps = tag_caps 0 na)
     \<or> (\<exists>na. 0 < w \<and> r \<noteq> 10 \<and> tag_core T (drop w s) = Some na \<and> caps = tag_caps w na)"
    by (auto simp: reTag_here_def split: option.splits if_splits)
  then show ?thesis
  proof
    assume "\<exists>na. tag_core T s = Some na \<and> caps = tag_caps 0 na"
    then obtain n a where "tag_core T s = Some (n, a)" "caps = tag_caps 0 (n, a)" by auto
    then show ?thesis using that [of 0 n a] by simp
  next
    assume "\<exists>na. 0 < w \<and> r \<noteq> 10 \<and> tag_core T (drop w s) = Some na \<and> caps = tag_caps w na"
    then obtain n a where "0 < w" "r \<noteq> 10" "tag_core T (drop w s) = Some (n, a)"
      "caps = tag_caps w (n, a)" by auto
    then show ?thesis using that [of w n a] d by simp
  qed
qed

lemma tag_caps_nth:
  "tag_caps b (n, a) ! 0 = 0" "tag_caps b (n, a) ! 1 = b + 1 + n + a"
  "tag_caps b (n, a) ! Suc 0 = b + 1 + n + a" "length (tag_caps b (n, a)) = 8"
  by (simp_all add: tag_caps_def)

text \<open>Matching again on the matched text alone finds the same match.\<close>

lemma reTag_here_again:
  assumes "reTag_here T bol s = Some caps"
  shows "reTag_here T True (take (caps ! 1) s) = Some caps"
proof -
  from assms obtain b n a where caps: "caps = tag_caps b (n, a)"
    and core: "tag_core T (drop b s) = Some (n, a)"
    and b: "b = 0 \<or> (0 < b \<and> b = snd (DecodeRuneInString s) \<and> fst (DecodeRuneInString s) \<noteq> 10)"
    by (rule reTag_here_SomeE)
  let ?e = "b + 1 + n + a"
  have e: "caps ! 1 = ?e" by (simp add: caps tag_caps_nth)
  have again: "tag_core T (take (1 + n + a) (drop b s)) = Some (n, a)"
    using core by (rule tag_core_take)
  have "reTag_here T True (take ?e s) = Some (tag_caps b (n, a))"
  proof (cases "b = 0")
    case True
    with again show ?thesis by (simp add: reTag_here_def)
  next
    case False
    with b have bpos: "0 < b" and bw: "b = snd (DecodeRuneInString s)"
      and nl: "fst (DecodeRuneInString s) \<noteq> 10" by simp_all
    from core obtain s1 where s1: "drop b s = CHR ''#'' # s1" by (rule tag_core_SomeE)
    have n: "0 < n" using core by (rule tag_core_bounds)
    have dt: "DecodeRuneInString (take ?e s) = DecodeRuneInString s"
      using decode_take [of s ?e] bw by simp
    have rest: "drop b (take ?e s) = take (1 + n + a) (drop b s)"
      by (simp add: drop_take)
    have first: "tag_core T (take ?e s) = None"
    proof (cases s)
      case Nil
      then show ?thesis by (simp add: tag_core_def)
    next
      case (Cons c t)
      show ?thesis
      proof (cases "c = CHR ''#''")
        case True
        with Cons bw have "b = 1" by (simp add: decode_ascii)
        with s1 Cons True obtain t' where "s = CHR ''#'' # CHR ''#'' # t'" by (cases t) auto
        then show ?thesis using n by (simp add: tag_core_hash_hash take_Cons')
      next
        case False
        with Cons show ?thesis by (simp add: tag_core_def take_Cons')
      qed
    qed
    obtain r w where d: "DecodeRuneInString s = (r, w)" by (cases "DecodeRuneInString s")
    with bw nl bpos have "w = b" "r \<noteq> 10" "0 < w" by simp_all
    with first dt d rest again show ?thesis
      by (simp add: reTag_here_def)
  qed
  then show ?thesis using e by (simp only: caps)
qed

lemma find_from_here:
  assumes "here True s = Some caps"
  shows "find_from here s 0 = Some caps"
proof -
  have "map ((+) (0::nat)) caps = caps" by (induction caps) simp_all
  with assms show ?thesis by (subst find_from.simps) simp
qed

lemma find_from_SomeE:
  assumes "find_from here s pos = Some caps"
  obtains p caps' where "pos \<le> p" and "p \<le> length s"
    and "here (p = 0) (drop p s) = Some caps'" and "caps = map ((+) p) caps'"
  using assms
proof (induction here s pos arbitrary: thesis rule: find_from.induct)
  case (1 here s pos)
  from "1.prems"(2) have le: "pos \<le> length s"
    by (subst (asm) find_from.simps) (simp split: if_splits)
  show ?case
  proof (cases "here (pos = 0) (drop pos s)")
    case (Some caps')
    with "1.prems"(2) le have "caps = map ((+) pos) caps'"
      by (subst (asm) find_from.simps) simp
    with Some le "1.prems"(1) [of pos caps'] show ?thesis by simp
  next
    case None
    with "1.prems"(2) le have lt: "\<not> length s \<le> pos"
      and rec: "find_from here s (pos + snd (DecodeRuneInString (drop pos s))) = Some caps"
      by (subst (asm) find_from.simps, simp split: if_splits)+
    have "\<not> length s < pos" using le by simp
    from "1.IH" [OF this None lt _ rec] "1.prems"(1)
    show ?thesis by (metis le_add1 le_trans)
  qed
qed

section \<open>Tags built from a match\<close>

lemma split_at_hash:
  assumes "length x = b + 1 + n + a" and "x ! b = c"
  shows "x = take b x @ c # take n (drop (b + 1) x) @ take a (drop (b + 1 + n) x)"
proof -
  have "x = take b x @ drop b x" by simp
  also have "drop b x = c # drop (Suc b) x"
    using assms by (simp flip: Cons_nth_drop_Suc)
  also have "drop (Suc b) x = take n (drop (Suc b) x) @ drop n (drop (Suc b) x)"
    by (rule append_take_drop_id [symmetric])
  also have "drop n (drop (Suc b) x) = take a (drop (b + 1 + n) x)"
    using assms(1) by (simp add: add.commute)
  finally show ?thesis by simp
qed

lemma submatches_tag_caps:
  "submatches sub (tag_caps b (n, a)) =
     [substr sub 0 (b + 1 + n + a), substr sub 0 b, substr sub (b + 1) (b + 1 + n),
      substr sub (b + 1 + n) (b + 1 + n + a)]"
  by (simp add: tag_caps_def)

text \<open>
  A tag that \<^verbatim>\<open>NewTag\<close> builds from the text of a match keeps the position it is given and
  is written back as that text.
\<close>

lemma NewTag_matched:
  assumes here: "reTag_here T bol s = Some caps"
    and name: "tag_Name (NewTag T (take (caps ! 1) s) pos) \<noteq> []"
  shows "Tag_String (NewTag T (take (caps ! 1) s) pos) = take (caps ! 1) s"
    and "tag_position (NewTag T (take (caps ! 1) s) pos) = pos"
proof -
  define sub where "sub = take (caps ! 1) s"
  from here obtain b n a where caps: "caps = tag_caps b (n, a)"
    and core: "tag_core T (drop b s) = Some (n, a)"
    by (rule reTag_here_SomeE)
  let ?e = "b + 1 + n + a"
  have e: "caps ! 1 = ?e" "caps ! Suc 0 = ?e" by (simp_all add: caps tag_caps_nth)
  have bound: "1 + n + a \<le> length (drop b s)" using core by (rule tag_core_bounds)
  then have len: "length sub = ?e" by (simp add: sub_def e)
  from core obtain s1 where s1: "drop b s = CHR ''#'' # s1" by (rule tag_core_SomeE)
  have "b < length s" using bound by simp
  then have "s ! b = hd (drop b s)" by (simp add: hd_drop_conv_nth)
  with s1 have "s ! b = CHR ''#''" by simp
  then have hash: "sub ! b = CHR ''#''" by (simp add: sub_def e)
  have "reTag T sub 0 = Some caps"
    unfolding reTag_def sub_def using reTag_here_again [OF here] by (rule find_from_here)
  then have parts: "FindStringSubmatch (reTag T) sub = Some (submatches sub (tag_caps b (n, a)))"
    by (simp add: FindStringSubmatch_def caps)
  have whole: "sub = take b sub @ CHR ''#'' # take n (drop (b + 1) sub)
      @ take a (drop (b + 1 + n) sub)"
    using len hash by (rule split_at_hash)
  from name have valid: "NewTag T sub pos =
      \<lparr>tag_Name = take n (drop (b + 1) sub), tag_position = pos, tag_before = take b sub,
       tag_after = take a (drop (b + 1 + n) sub)\<rparr>"
    unfolding sub_def [symmetric]
    by (simp add: NewTag_def parts submatches_tag_caps substr_def Let_def zero_Tag_def len
          split: if_splits)
  show "tag_position (NewTag T (take (caps ! 1) s) pos) = pos"
    unfolding sub_def [symmetric] by (simp add: valid)
  from name valid have "take n (drop (b + 1) sub) \<noteq> []"
    unfolding sub_def [symmetric] by simp
  then have "Tag_String (NewTag T sub pos) =
      take b sub @ CHR ''#'' # take n (drop (b + 1) sub) @ take a (drop (b + 1 + n) sub)"
    by (simp add: valid Tag_String_def)
  with whole show "Tag_String (NewTag T (take (caps ! 1) s) pos) = take (caps ! 1) s"
    unfolding sub_def [symmetric] by simp
qed

section \<open>Successive matches\<close>

lemma spans_between_le: "spans_between lo hi ps \<Longrightarrow> lo \<le> hi"
  by (induction ps arbitrary: lo) force+

lemma spans_between_mono: "spans_between lo hi ps \<Longrightarrow> lo' \<le> lo \<Longrightarrow> spans_between lo' hi ps"
  by (cases ps) auto

lemma spans_between_filter: "spans_between lo hi ps \<Longrightarrow> spans_between lo hi (filter P ps)"
proof (induction ps arbitrary: lo)
  case Nil
  then show ?case by simp
next
  case (Cons p ps)
  then have "spans_between (p ! 1) hi (filter P ps)" by simp
  with Cons.prems show ?case
    by (auto intro: spans_between_mono)
qed

lemma spans_between_mem:
  "spans_between lo hi ps \<Longrightarrow> p \<in> set ps \<Longrightarrow>
     length p = 2 \<and> lo \<le> p ! 0 \<and> p ! 0 < p ! 1 \<and> p ! 1 \<le> hi"
proof (induction ps arbitrary: lo)
  case Nil
  then show ?case by simp
next
  case (Cons q ps)
  show ?case
  proof (cases "p = q")
    case True
    with Cons.prems spans_between_le [of "q ! 1" hi ps] show ?thesis by simp
  next
    case False
    with Cons.prems have "p \<in> set ps" "spans_between (q ! 1) hi ps" "lo \<le> q ! 1" by auto
    with Cons.IH [of "q ! 1"] show ?thesis by auto
  qed
qed

lemma spans_between_sorted:
  "spans_between lo hi ps \<Longrightarrow> sorted_wrt (\<lambda>p q. p ! 1 \<le> q ! 0) ps"
proof (induction ps arbitrary: lo)
  case Nil
  then show ?case by simp
next
  case (Cons p ps)
  then have "spans_between (p ! 1) hi ps" by simp
  then have "\<forall>q\<in>set ps. p ! 1 \<le> q ! 0" using spans_between_mem by blast
  with Cons show ?case by auto
qed

lemma allMatches_spans:
  assumes "\<And>pos caps. re s pos = Some caps \<Longrightarrow>
      2 \<le> length caps \<and> pos \<le> caps ! 0 \<and> caps ! 0 < caps ! 1 \<and> caps ! 1 \<le> length s"
    and "pos \<le> length s"
  shows "spans_between pos (length s) (allMatches re s pos)"
  using assms
proof (induction re s pos rule: allMatches.induct)
  case (1 re s pos)
  note good = "1.prems"(1)
  show ?case
  proof (cases "re s pos")
    case None
    with "1.prems"(2) show ?thesis by (subst allMatches.simps) simp
  next
    case (Some caps)
    from good [OF Some] have g: "2 \<le> length caps" "pos \<le> caps ! 0" "caps ! 0 < caps ! 1"
      "caps ! 1 \<le> length s" by simp_all
    then have c: "\<not> (length caps < 2 \<or> caps ! 1 \<le> pos)" by simp
    have "\<not> length s < pos" using "1.prems"(2) by simp
    from "1.IH" [OF this Some c good g(4)]
    have "spans_between (caps ! 1) (length s) (allMatches re s (caps ! 1))" by simp
    moreover have "allMatches re s pos = take 2 caps # allMatches re s (caps ! 1)"
      using Some c "1.prems"(2) by (subst allMatches.simps) simp
    ultimately show ?thesis using g by simp
  qed
qed

lemma allMatches_from:
  "m \<in> set (allMatches re s pos) \<Longrightarrow>
     \<exists>pos' caps. re s pos' = Some caps \<and> 2 \<le> length caps \<and> m = take 2 caps"
proof (induction re s pos rule: allMatches.induct)
  case (1 re s pos)
  show ?case
  proof (cases "re s pos")
    case None
    with "1.prems" show ?thesis by (subst (asm) allMatches.simps) (simp split: if_splits)
  next
    case (Some caps)
    show ?thesis
    proof (cases "length s < pos \<or> length caps < 2 \<or> caps ! 1 \<le> pos")
      case True
      with "1.prems" Some show ?thesis by (subst (asm) allMatches.simps) (auto split: if_splits)
    next
      case False
      with "1.prems" Some have "m = take 2 caps \<or> m \<in> set (allMatches re s (caps ! 1))"
        by (subst (asm) allMatches.simps) (auto split: if_splits)
      then show ?thesis
      proof
        assume "m = take 2 caps"
        with Some False show ?thesis
          by (intro exI [of _ pos] exI [of _ caps]) simp
      next
        assume "m \<in> set (allMatches re s (caps ! 1))"
        with "1.IH" [OF _ Some] False show ?thesis by auto
      qed
    qed
  qed
qed

lemma find_from_span:
  assumes here_ok: "\<And>b x caps'. here b x = Some caps' \<Longrightarrow>
      2 \<le> length caps' \<and> caps' ! 0 = 0 \<and> 0 < caps' ! 1 \<and> caps' ! 1 \<le> length x"
    and found: "find_from here s pos = Some caps"
  shows "2 \<le> length caps \<and> pos \<le> caps ! 0 \<and> caps ! 0 < caps ! 1 \<and> caps ! 1 \<le> length s"
proof -
  from found obtain p caps' where p: "pos \<le> p" "p \<le> length s"
    and h: "here (p = 0) (drop p s) = Some caps'" and caps: "caps = map ((+) p) caps'"
    by (rule find_from_SomeE)
  from here_ok [OF h] have "0 < length caps'" "Suc 0 < length caps'" by auto
  with here_ok [OF h] p show ?thesis by (auto simp: caps)
qed

lemma reTag_here_span:
  assumes "reTag_here T b x = Some caps'"
  shows "2 \<le> length caps' \<and> caps' ! 0 = 0 \<and> 0 < caps' ! 1 \<and> caps' ! 1 \<le> length x"
proof -
  from assms obtain b n a where caps: "caps' = tag_caps b (n, a)"
    and core: "tag_core T (drop b x) = Some (n, a)"
    by (rule reTag_here_SomeE)
  have "1 + n + a \<le> length (drop b x)" using core by (rule tag_core_bounds)
  then show ?thesis by (simp add: caps tag_caps_nth)
qed

lemma reTag_span:
  "reTag T s pos = Some caps \<Longrightarrow>
     2 \<le> length caps \<and> pos \<le> caps ! 0 \<and> caps ! 0 < caps ! 1 \<and> caps ! 1 \<le> length s"
  unfolding reTag_def by (rule find_from_span [OF reTag_here_span])

lemma tag_of_match:
  assumes m: "m \<in> set (FindAllStringIndex (reTag T) content)"
    and name: "tag_Name (NewTag T (substr content (m ! 0) (m ! 1)) m) \<noteq> []"
  shows "Tag_String (NewTag T (substr content (m ! 0) (m ! 1)) m) = substr content (m ! 0) (m ! 1)"
    and "tag_position (NewTag T (substr content (m ! 0) (m ! 1)) m) = m"
proof -
  from m obtain pos' caps where re: "reTag T content pos' = Some caps"
    and len: "2 \<le> length caps" and mc: "m = take 2 caps"
    unfolding FindAllStringIndex_def by (blast dest: allMatches_from)
  from re obtain p caps' where h: "reTag_here T (p = 0) (drop p content) = Some caps'"
    and caps: "caps = map ((+) p) caps'"
    unfolding reTag_def by (rule find_from_SomeE)
  from reTag_here_span [OF h] have c: "2 \<le> length caps'" "caps' ! 0 = 0" by simp_all
  from c have "0 < length caps'" "Suc 0 < length caps'" by auto
  then have m0: "m ! 0 = p" and m1: "m ! Suc 0 = p + caps' ! Suc 0"
    using c by (simp_all add: mc caps)
  have sub: "substr content (m ! 0) (m ! 1) = take (caps' ! 1) (drop p content)"
    by (simp add: substr_def m0 m1)
  show "Tag_String (NewTag T (substr content (m ! 0) (m ! 1)) m) = substr content (m ! 0) (m ! 1)"
    and "tag_position (NewTag T (substr content (m ! 0) (m ! 1)) m) = m"
    using NewTag_matched [OF h, of m] name unfolding sub by simp_all
qed

section \<open>Sorting the items\<close>

lemma insert_down_sorted:
  assumes "\<forall>y\<in>set pre. lessfn x y = Some (key x < key y)"
    and "sorted_wrt (\<lambda>a b. key b \<le> (key a :: nat)) pre"
  shows "\<exists>pre'. insert_down lessfn x pre = Some pre' \<and> mset pre' = add_mset x (mset pre)
           \<and> sorted_wrt (\<lambda>a b. key b \<le> key a) pre'"
  using assms
proof (induction pre)
  case Nil
  then show ?case by simp
next
  case (Cons y ys)
  show ?case
  proof (cases "key x < key y")
    case True
    from Cons obtain pre' where p: "insert_down lessfn x ys = Some pre'"
      "mset pre' = add_mset x (mset ys)" "sorted_wrt (\<lambda>a b. key b \<le> key a) pre'"
      by auto
    from p(2) have "set pre' = insert x (set ys)"
      by (metis set_mset_add_mset_insert set_mset_mset)
    with Cons.prems True p show ?thesis by auto
  next
    case False
    with Cons.prems show ?thesis by auto
  qed
qed

lemma insertionSort_sorted:
  assumes "\<forall>a\<in>set (pre @ xs). \<forall>b\<in>set (pre @ xs). key a \<noteq> key b \<longrightarrow> lessfn a b = Some (key a < key b)"
    and "distinct (map key (pre @ xs))"
    and "sorted_wrt (\<lambda>a b. key b \<le> (key a :: nat)) pre"
  shows "\<exists>zs. insertionSort lessfn pre xs = Some zs \<and> mset zs = mset pre + mset xs
           \<and> sorted (map key zs)"
  using assms
proof (induction xs arbitrary: pre)
  case Nil
  have "sorted (map key (rev pre))"
    using Nil.prems(3) by (simp add: rev_map sorted_wrt_rev sorted_wrt_map)
  then show ?case by simp
next
  case (Cons x xs)
  have "\<forall>y\<in>set pre. lessfn x y = Some (key x < key y)"
    using Cons.prems(1,2) by auto
  from insert_down_sorted [of pre lessfn x key, OF this Cons.prems(3)]
  obtain pre' where p: "insert_down lessfn x pre = Some pre'"
    "mset pre' = add_mset x (mset pre)" "sorted_wrt (\<lambda>a b. key b \<le> key a) pre'"
    by blast
  from p(2) have set': "set pre' = insert x (set pre)"
    by (metis set_mset_add_mset_insert set_mset_mset)
  have "mset (map key (pre' @ xs)) = mset (map key (pre @ x # xs))"
    using p(2) by simp
  then have d: "distinct (map key (pre' @ xs))"
    using Cons.prems(2) by (metis mset_eq_imp_distinct_iff)
  have c: "\<forall>a\<in>set (pre' @ xs). \<forall>b\<in>set (pre' @ xs). key a \<noteq> key b \<longrightarrow> lessfn a b = Some (key a < key b)"
    using Cons.prems(1) set' by auto
  from Cons.IH [OF c d p(3)] p show ?case by auto
qed

lemma filter_key_distinct:
  "distinct (map f ys) \<Longrightarrow> k \<in> set ys \<Longrightarrow> filter (\<lambda>x. f k = f x) ys = [k]"
proof (induction ys)
  case Nil
  then show ?case by simp
next
  case (Cons y ys)
  show ?case
  proof (cases "k = y")
    case True
    with Cons.prems have "\<forall>x\<in>set ys. f y \<noteq> f x" by auto
    then have "filter (\<lambda>x. f y = f x) ys = []" by (simp add: filter_empty_conv)
    with True show ?thesis by simp
  next
    case False
    with Cons.prems have "k \<in> set ys" "f k \<noteq> f y" by (auto simp: image_iff)
    with Cons show ?thesis by simp
  qed
qed

text \<open>With pairwise different keys there is one sorted arrangement.\<close>

lemma sort_Slice_sort_key:
  assumes "\<forall>a\<in>set xs. \<forall>b\<in>set xs. key a \<noteq> key b \<longrightarrow> lessfn a b = Some (key a < key b)"
    and "distinct (map (key :: 'a \<Rightarrow> nat) xs)"
  shows "sort_Slice lessfn xs = Some (sort_key key xs)"
proof -
  from insertionSort_sorted [of "[]" xs key lessfn] assms
  obtain zs where z: "sort_Slice lessfn xs = Some zs" "mset zs = mset xs" "sorted (map key zs)"
    by (auto simp: sort_Slice_def)
  have "mset (map key zs) = mset (map key xs)" using z(2) by simp
  then have dz: "distinct (map key zs)" using assms(2) by (metis mset_eq_imp_distinct_iff)
  have "sort_key key xs = zs"
  proof (rule properties_for_sort_key [OF z(2) _ z(3)])
    fix k assume k: "k \<in> set zs"
    then have "k \<in> set xs" using z(2) by (metis mset_eq_setD)
    then have "filter (\<lambda>x. key k = key x) xs = [k]"
      using assms(2) by (rule filter_key_distinct [rotated])
    moreover have "filter (\<lambda>x. key k = key x) zs = [k]"
      using dz k by (rule filter_key_distinct)
    ultimately show "filter (\<lambda>x. key k = key x) zs = filter (\<lambda>x. key k = key x) xs" by simp
  qed
  with z(1) show ?thesis by simp
qed

section \<open>Writing sorted items\<close>

lemma disjoint_spans_sym: "disjoint_spans p q \<Longrightarrow> disjoint_spans q p"
  by (auto simp: disjoint_spans_def)

lemma nonoverlapping_mem:
  "nonoverlapping ps \<Longrightarrow> p \<in> set ps \<Longrightarrow> q \<in> set ps \<Longrightarrow> p \<noteq> q \<Longrightarrow> disjoint_spans p q"
proof (induction ps)
  case Nil
  then show ?case by simp
next
  case (Cons x ps)
  then show ?case
    by (auto simp: list_all_iff dest: disjoint_spans_sym)
qed

lemma disjoint_start_neq:
  assumes "disjoint_spans p q" and "p ! 0 < p ! 1" and "q ! 0 < q ! 1"
  shows "p ! 0 \<noteq> q ! 0" and "p ! 0 < q ! 1 \<longleftrightarrow> p ! 0 < q ! 0"
  using assms by (auto simp: disjoint_spans_def)

lemma nonoverlapping_distinct_start:
  "nonoverlapping ps \<Longrightarrow> list_all (span_in c) ps \<Longrightarrow> distinct (map (\<lambda>p. p ! 0) ps)"
proof (induction ps)
  case Nil
  then show ?case by simp
next
  case (Cons p ps)
  have "\<forall>q\<in>set ps. p ! 0 \<noteq> q ! 0"
  proof
    fix q assume "q \<in> set ps"
    with Cons.prems have "disjoint_spans p q" "p ! 0 < p ! 1" "q ! 0 < q ! 1"
      by (auto simp: list_all_iff span_in_def)
    then show "p ! 0 \<noteq> q ! 0" by (rule disjoint_start_neq)
  qed
  with Cons show ?case by auto
qed

lemma item_less_disjoint:
  assumes "span_in c (item_position a)" and "span_in c (item_position b)"
    and "disjoint_spans (item_position a) (item_position b)"
  shows "item_less a b = Some (item_position a ! 0 < item_position b ! 0)"
proof -
  from assms(1,2) have "index (item_position a) 0 = Some (item_position a ! 0)"
    and "index (item_position b) 1 = Some (item_position b ! 1)"
    by (simp_all add: index_def span_in_def)
  moreover have "item_position a ! 0 < item_position b ! 1
      \<longleftrightarrow> item_position a ! 0 < item_position b ! 0"
    using assms by (intro disjoint_start_neq) (simp_all add: span_in_def)
  ultimately show ?thesis by (simp add: item_less_def)
qed

lemma sort_Slice_items:
  assumes ok: "list_all (span_in c) (map item_position items)"
    and no: "nonoverlapping (map item_position items)"
  shows "sort_Slice item_less items = Some (sort_key (\<lambda>item. item_position item ! 0) items)"
proof (rule sort_Slice_sort_key)
  show "distinct (map (\<lambda>item. item_position item ! 0) items)"
    using nonoverlapping_distinct_start [OF no ok] by (simp add: comp_def)
  show "\<forall>a\<in>set items. \<forall>b\<in>set items. item_position a ! 0 \<noteq> item_position b ! 0 \<longrightarrow>
      item_less a b = Some (item_position a ! 0 < item_position b ! 0)"
  proof (intro ballI impI)
    fix a b assume a: "a \<in> set items" and b: "b \<in> set items"
      and ne: "item_position a ! 0 \<noteq> item_position b ! 0"
    from a b ok have s: "span_in c (item_position a)" "span_in c (item_position b)"
      by (simp_all add: list_all_iff)
    from ne have "item_position a \<noteq> item_position b" by auto
    with a b have "disjoint_spans (item_position a) (item_position b)"
      by (intro nonoverlapping_mem [OF no]) simp_all
    with s show "item_less a b = Some (item_position a ! 0 < item_position b ! 0)"
      by (rule item_less_disjoint)
  qed
qed

text \<open>Sorted by their start, spans that do not overlap follow one another.\<close>

lemma sorted_spans_between:
  assumes "sorted (map (\<lambda>p. p ! 0) ps)" and "list_all (span_in c) ps" and "nonoverlapping ps"
    and "\<forall>p\<in>set ps. lo \<le> p ! 0" and "lo \<le> length c"
  shows "spans_between lo (length c) ps"
  using assms
proof (induction ps arbitrary: lo)
  case Nil
  then show ?case by simp
next
  case (Cons p ps)
  from Cons.prems(2) have p: "length p = 2" "p ! 0 < p ! 1" "p ! 1 \<le> length c"
    by (simp_all add: span_in_def)
  have "\<forall>q\<in>set ps. p ! 1 \<le> q ! 0"
  proof
    fix q assume q: "q \<in> set ps"
    with Cons.prems have "p ! 0 \<le> q ! 0" "disjoint_spans p q" "q ! 0 < q ! 1"
      by (auto simp: list_all_iff span_in_def)
    with p show "p ! 1 \<le> q ! 0" by (auto simp: disjoint_spans_def)
  qed
  with Cons.prems p have "spans_between (p ! 1) (length c) ps"
    by (intro Cons.IH) simp_all
  with Cons.prems(4) p show ?case by simp
qed

lemma nonoverlapping_perm:
  assumes "mset qs = mset ps" and "nonoverlapping ps" and "list_all (span_in c) ps"
  shows "nonoverlapping qs"
proof -
  have d: "distinct ps"
    using nonoverlapping_distinct_start [OF assms(2,3)] by (simp add: distinct_map)
  then have dq: "distinct qs" using assms(1) by (metis mset_eq_imp_distinct_iff)
  have s: "set qs = set ps" using assms(1) by (rule mset_eq_setD)
  have "\<And>xs. distinct xs \<Longrightarrow> set xs \<subseteq> set ps \<Longrightarrow> nonoverlapping xs"
  proof -
    fix xs show "distinct xs \<Longrightarrow> set xs \<subseteq> set ps \<Longrightarrow> nonoverlapping xs"
    proof (induction xs)
      case Nil
      then show ?case by simp
    next
      case (Cons x xs)
      then have "\<forall>y\<in>set xs. disjoint_spans x y"
        by (auto intro!: nonoverlapping_mem [OF assms(2)])
      with Cons show ?case by (simp add: list_all_iff)
    qed
  qed
  from this [OF dq] s show ?thesis by simp
qed

lemma write_items_splice:
  "spans_between cur (length content) (map item_position items) \<Longrightarrow>
     write_items content cur items = Some (splice content cur items)"
proof (induction items arbitrary: cur)
  case Nil
  then show ?case by (simp add: slice_def)
next
  case (Cons item items)
  let ?p = "item_position item"
  from Cons.prems have p: "length ?p = 2" "cur \<le> ?p ! 0" "?p ! 0 < ?p ! 1"
    and rest: "spans_between (?p ! 1) (length content) (map item_position items)"
    by simp_all
  from rest have "?p ! 1 \<le> length content" by (rule spans_between_le)
  with p Cons.IH [OF rest] show ?case
    by (simp add: index_def slice_def)
qed

text \<open>
  For a note whose spans are well formed and do not overlap, \<^verbatim>\<open>WriteNote\<close> is the serializer
  of the specification, and the sorted spans follow one another.
\<close>

lemma note_spans_items: "map item_position (note_items note) = note_spans note"
  by (simp add: note_items_def note_spans_def comp_def)

lemma WriteNote_splice:
  assumes ok: "list_all (span_in (note_content note)) (note_spans note)"
    and no: "nonoverlapping (note_spans note)"
  shows "WriteNote note = Some (render_by_start note)"
    and "spans_between 0 (length (note_content note))
           (map item_position (sort_key (\<lambda>item. item_position item ! 0) (note_items note)))"
proof -
  let ?c = "note_content note"
  let ?key = "\<lambda>item :: updatedItem. item_position item ! 0"
  let ?zs = "sort_key ?key (note_items note)"
  have sorted: "sort_Slice item_less (note_items note) = Some ?zs"
    using ok no by (intro sort_Slice_items [of ?c]) (simp_all add: note_spans_items)
  have m: "mset (map item_position ?zs) = mset (note_spans note)"
    by (simp flip: note_spans_items)
  then have s: "set (map item_position ?zs) = set (note_spans note)"
    by (rule mset_eq_setD)
  have ok': "list_all (span_in ?c) (map item_position ?zs)"
    using ok s unfolding list_all_iff by blast
  have no': "nonoverlapping (map item_position ?zs)"
    using m no ok by (rule nonoverlapping_perm)
  have "sorted (map ?key ?zs)" by (rule sorted_sort_key)
  then have "sorted (map (\<lambda>p. p ! 0) (map item_position ?zs))" by (simp add: comp_def)
  then show chain: "spans_between 0 (length ?c) (map item_position ?zs)"
    using ok' no' by (rule sorted_spans_between) simp_all
  then have "write_items ?c 0 ?zs = Some (splice ?c 0 ?zs)" by (rule write_items_splice)
  with sorted show "WriteNote note = Some (render_by_start note)"
    by (simp add: WriteNote_def render_by_start_def)
qed

section \<open>Matching again on the matched text\<close>

lemma lit_Some_iff: "lit p s = Some s' \<longleftrightarrow> s = p @ s'"
  by (auto simp: lit_def) (metis append_take_drop_id)

lemma quote_Some_iff:
  "quote s = Some s' \<longleftrightarrow> (\<exists>q. s = q # s' \<and> (of_char q = (39::nat) \<or> of_char q = (34::nat)))"
  by (cases s) (auto simp: quote_def)

text \<open>A repetition that stops at an ASCII byte stops there in every text that holds that byte.\<close>

lemma cls_run_take_ascii:
  assumes "drop (cls_run P s) s = c # t" and "of_char c < (128::nat)" and "cls_run P s < j"
  shows "cls_run P (take j s) = cls_run P s"
proof (rule cls_run_take)
  have "snd (DecodeRuneInString (drop (cls_run P s) s)) = 1"
    using assms(1,2) by (simp add: decode_ascii)
  with assms(3)
  show "j = cls_run P s \<or> cls_run P s + snd (DecodeRuneInString (drop (cls_run P s) s)) \<le> j"
    by simp
qed

lemma reFile_here_again:
  assumes "reFile_here bol s = Some caps"
  shows "reFile_here True (take (caps ! 1) s) = Some caps"
    and "2 \<le> length caps \<and> caps ! 0 = 0 \<and> 0 < caps ! 1 \<and> caps ! 1 \<le> length s"
proof -
  from assms obtain s1 s2 s3 s4 s5 s6 K U N where
    l1: "s = ''<a'' @ s1"
    and K: "K = cls_run (\<lambda>r. r = 32) s1" "K \<noteq> 0"
    and l2: "drop K s1 = ''href='' @ s2"
    and q1: "quote s2 = Some s3"
    and U: "U = cls_run (\<lambda>r. r \<noteq> 39 \<and> r \<noteq> 34) s3" "U \<noteq> 0"
    and q2: "quote (drop U s3) = Some s4"
    and l3: "s4 = ''>'' @ s5"
    and N: "N = cls_run (\<lambda>r. r \<noteq> 60) s5" "N \<noteq> 0"
    and l4: "drop N s5 = ''</a>'' @ s6"
    and caps: "caps = [0, K + U + N + 14, K + 8, K + 8 + U, K + U + 10, K + U + 10 + N]"
    by (auto simp: reFile_here_def Let_def bind_eq_Some_conv lit_Some_iff split: if_splits)
  from q1 obtain qa where s2: "s2 = qa # s3" and qa: "of_char qa = (39::nat) \<or> of_char qa = (34::nat)"
    by (auto simp: quote_Some_iff)
  from q2 obtain qb where s3: "drop U s3 = qb # s4" and qb: "of_char qb = (39::nat) \<or> of_char qb = (34::nat)"
    by (auto simp: quote_Some_iff)
  define e where "e = K + U + N + 14"
  have e: "caps ! 1 = e" by (simp add: caps e_def)
  \<comment> \<open>the lengths\<close>
  have len5: "length s5 = N + 4 + length s6"
    using arg_cong [OF l4, of length] by simp
  have len3: "length s3 = U + 1 + length s4"
    using arg_cong [OF s3, of length] by simp
  have len1: "length s1 = K + 5 + length s2"
    using arg_cong [OF l2, of length] by simp
  have len: "length s = e + length s6"
    by (simp add: l1 len1 s2 len3 l3 len5 e_def)
  \<comment> \<open>the same steps on the matched text\<close>
  define t1 where "t1 = take (K + U + N + 12) s1"
  define t3 where "t3 = take (U + N + 6) s3"
  define t5 where "t5 = take (N + 4) s5"
  have a1: "lit ''<a'' (take e s) = Some t1"
    by (simp add: lit_Some_iff l1 e_def t1_def take_Cons' add_ac)
  have a2: "cls_run (\<lambda>r. r = 32) t1 = K"
    unfolding t1_def K(1)
    by (rule cls_run_take_ascii [where c = "CHR ''h''"]) (use l2 K in simp_all)
  have "drop K t1 = take (U + N + 12) (drop K s1)"
    by (simp add: t1_def drop_take add_ac)
  then have a3: "lit ''href='' (drop K t1) = Some (qa # t3)"
    by (simp add: lit_Some_iff l2 s2 t3_def take_Cons' add_ac)
  have a4: "quote (qa # t3) = Some t3"
    using qa by (auto simp: quote_def)
  have a5: "cls_run (\<lambda>r. r \<noteq> 39 \<and> r \<noteq> 34) t3 = U"
    unfolding t3_def U(1)
    by (rule cls_run_take_ascii [where c = qb]) (use s3 U qb in auto)
  have "drop U t3 = take (N + 6) (drop U s3)"
    by (simp add: t3_def drop_take add_ac)
  then have a6: "quote (drop U t3) = Some (CHR ''>'' # t5)"
    using qb by (auto simp: quote_def s3 l3 t5_def take_Cons' add_ac)
  have a7: "lit ''>'' (CHR ''>'' # t5) = Some t5"
    by (simp add: lit_Some_iff)
  have a8: "cls_run (\<lambda>r. r \<noteq> 60) t5 = N"
    unfolding t5_def N(1)
    by (rule cls_run_take_ascii [where c = "CHR ''<''"]) (use l4 N in simp_all)
  have "drop N t5 = take 4 (drop N s5)"
    by (simp add: t5_def drop_take add_ac)
  then have a9: "lit ''</a>'' (drop N t5) = Some []"
    by (simp add: lit_Some_iff l4 take_Cons' add_ac)
  have "reFile_here True (take e s) = Some caps"
    using K(2) U(2) N(2)
    by (simp add: reFile_here_def a1 a2 a3 a4 a5 a6 a7 a8 a9 caps)
  then show "reFile_here True (take (caps ! 1) s) = Some caps" by (simp only: e)
  show "2 \<le> length caps \<and> caps ! 0 = 0 \<and> 0 < caps ! 1 \<and> caps ! 1 \<le> length s"
    using len by (simp add: caps e_def)
qed

section \<open>Matching an image again\<close>

lemma decode_ascii_rune:
  assumes "DecodeRuneInString (c # t) = (r, w)" and "r < 128"
  shows "of_char c = r" and "w = 1"
proof -
  have "(of_char c :: nat) < 128"
    using decode_non_ascii(1) [OF _ assms(1)] assms(2) by (cases "128 \<le> (of_char c :: nat)") auto
  with assms(1) show "of_char c = r" and "w = 1" by (simp_all add: decode_ascii)
qed

lemma close_paren_take:
  assumes "close_paren x = Some n"
  shows "close_paren (take (n + 1) x) = Some n" and "n < length x"
proof -
  have "close_paren (take (n + 1) x) = Some n \<and> n < length x"
    using assms
  proof (induction x arbitrary: n rule: close_paren.induct)
    case (1 x)
    from "1.prems" have ne: "x \<noteq> []" by (subst (asm) close_paren.simps) (simp split: if_splits)
    obtain r w where d: "DecodeRuneInString x = (r, w)" by (cases "DecodeRuneInString x")
    have wpos: "0 < w" using DecodeRuneInString_width_pos [OF ne] d by simp
    have wle: "w \<le> length x" using decode_width_le [of x] d by simp
    show ?case
    proof (cases "r \<noteq> 40 \<and> close_paren (drop w x) \<noteq> None")
      case True
      then obtain n' where n': "close_paren (drop w x) = Some n'" and r: "r \<noteq> 40" by auto
      with "1.prems" ne d have n: "n = w + n'" by (subst (asm) close_paren.simps) simp
      from "1.IH" [OF ne d [symmetric] r n']
      have ih: "close_paren (take (n' + 1) (drop w x)) = Some n'" and lt: "n' < length (drop w x)"
        by simp_all
      have dt: "DecodeRuneInString (take (n + 1) x) = (r, w)"
        using decode_take [of x "n + 1"] d n by simp
      have "drop w (take (n + 1) x) = take (n' + 1) (drop w x)"
        by (simp add: n drop_take)
      with ih have "close_paren (drop w (take (n + 1) x)) = Some n'" by simp
      moreover have "take (n + 1) x \<noteq> []" using ne by simp
      ultimately have "close_paren (take (n + 1) x) = Some n"
        using dt r n by (subst close_paren.simps) simp
      with lt n show ?thesis by simp
    next
      case False
      from "1.prems" ne d have
        "(case (if r \<noteq> 40 then close_paren (drop w x) else None) of
            Some n \<Rightarrow> Some (w + n) | None \<Rightarrow> if r = 41 then Some 0 else None) = Some n"
        by (subst (asm) close_paren.simps) simp
      with False have r: "r = 41" and n: "n = 0"
        by (auto split: if_splits option.splits)
      obtain c t where x: "x = c # t" using ne by (cases x) auto
      from d r x have c: "(of_char c :: nat) = 41" using decode_ascii_rune(1) [of c t r w] by simp
      then have "close_paren [c] = Some 0"
        by (simp add: close_paren_ascii close_paren_Nil)
      with n x show ?thesis by simp
    qed
  qed
  then show "close_paren (take (n + 1) x) = Some n" and "n < length x" by simp_all
qed

lemma reImage_here_again:
  assumes "reImage_here bol s = Some caps"
  shows "reImage_here True (take (caps ! 1) s) = Some caps"
    and "2 \<le> length caps \<and> caps ! 0 = 0 \<and> 0 < caps ! 1 \<and> caps ! 1 \<le> length s"
proof -
  from assms obtain s1 s2 D where
    l1: "s = ''!['' @ s1"
    and D: "D = cls_run (\<lambda>r. r \<noteq> 93) s1"
    and l2: "drop D s1 = ''](''  @ s2"
    and body: "(case DecodeRuneInString s2 of (r, w) \<Rightarrow>
        if w = 0 \<or> r = 40 then None
        else do {
          n \<leftarrow> close_paren (drop w s2);
          Some [0, D + w + n + 5, 2, 2 + D, D + 4, D + 4 + w + n]
        }) = Some caps"
    by (auto simp: reImage_here_def Let_def bind_eq_Some_conv lit_Some_iff)
  obtain r w where d: "DecodeRuneInString s2 = (r, w)" by (cases "DecodeRuneInString s2")
  from body d obtain n where w: "w \<noteq> 0" and r: "r \<noteq> 40"
    and cp: "close_paren (drop w s2) = Some n"
    and caps: "caps = [0, D + w + n + 5, 2, 2 + D, D + 4, D + 4 + w + n]"
    by (auto simp: bind_eq_Some_conv split: if_splits)
  define e where "e = D + w + n + 5"
  have e: "caps ! 1 = e" by (simp add: caps e_def)
  have n: "n < length s2 - w" using close_paren_take(2) [OF cp] by simp
  have len1: "length s1 = D + 2 + length s2"
    using arg_cong [OF l2, of length] by simp
  have len: "e \<le> length s"
    using n by (simp add: l1 len1 e_def)
  define t1 where "t1 = take (D + w + n + 3) s1"
  define t2 where "t2 = take (w + n + 1) s2"
  have a1: "lit ''!['' (take e s) = Some t1"
    by (simp add: lit_Some_iff l1 e_def t1_def take_Cons' add_ac)
  have a2: "cls_run (\<lambda>r. r \<noteq> 93) t1 = D"
    unfolding t1_def D
    by (rule cls_run_take_ascii [where c = "CHR '']''"]) (use l2 D in simp_all)
  have "drop D t1 = take (w + n + 3) (drop D s1)"
    by (simp add: t1_def drop_take add_ac)
  then have a3: "lit ''](''  (drop D t1) = Some t2"
    by (simp add: lit_Some_iff l2 t2_def take_Cons' add_ac)
  have a4: "DecodeRuneInString t2 = (r, w)"
    unfolding t2_def using decode_take [of s2 "w + n + 1"] d by simp
  have "drop w t2 = take (n + 1) (drop w s2)"
    by (simp add: t2_def drop_take add_ac)
  then have a5: "close_paren (drop w t2) = Some n"
    using close_paren_take(1) [OF cp] by simp
  have "reImage_here True (take e s) = Some caps"
    using w r by (simp add: reImage_here_def a1 a2 a3 a4 a5 caps)
  then show "reImage_here True (take (caps ! 1) s) = Some caps" by (simp only: e)
  show "2 \<le> length caps \<and> caps ! 0 = 0 \<and> 0 < caps ! 1 \<and> caps ! 1 \<le> length s"
    using len by (simp add: caps e_def)
qed

section \<open>The spans of a parsed note\<close>

lemma reFile_span:
  "reFile s pos = Some caps \<Longrightarrow>
     2 \<le> length caps \<and> pos \<le> caps ! 0 \<and> caps ! 0 < caps ! 1 \<and> caps ! 1 \<le> length s"
  unfolding reFile_def by (rule find_from_span [OF reFile_here_again(2)])

lemma reImage_span:
  "reImage s pos = Some caps \<Longrightarrow>
     2 \<le> length caps \<and> pos \<le> caps ! 0 \<and> caps ! 0 < caps ! 1 \<and> caps ! 1 \<le> length s"
  unfolding reImage_def by (rule find_from_span [OF reImage_here_again(2)])

text \<open>
  The text of a match, handed to the pattern again, matches as a whole: what
  \<^verbatim>\<open>FindStringSubmatch\<close> returns on it is not \<^verbatim>\<open>nil\<close>.
\<close>

lemma match_again:
  assumes again: "\<And>bol s caps. here bol s = Some caps \<Longrightarrow>
      here True (take (caps ! 1) s) = Some caps
      \<and> 2 \<le> length caps \<and> caps ! 0 = 0 \<and> 0 < caps ! 1 \<and> caps ! 1 \<le> length s"
    and m: "m \<in> set (FindAllStringIndex (find_from here) content)"
  shows "\<exists>caps. find_from here (substr content (m ! 0) (m ! 1)) 0 = Some caps"
proof -
  from m obtain pos' caps where re: "find_from here content pos' = Some caps"
    and len: "2 \<le> length caps" and mc: "m = take 2 caps"
    unfolding FindAllStringIndex_def by (blast dest: allMatches_from)
  from re obtain p caps' where h: "here (p = 0) (drop p content) = Some caps'"
    and caps: "caps = map ((+) p) caps'"
    by (rule find_from_SomeE)
  from again [OF h] have c: "2 \<le> length caps'" "caps' ! 0 = 0"
    and a: "here True (take (caps' ! 1) (drop p content)) = Some caps'" by simp_all
  from c have "0 < length caps'" "Suc 0 < length caps'" by auto
  then have m0: "m ! 0 = p" and m1: "m ! Suc 0 = p + caps' ! Suc 0"
    using c by (simp_all add: mc caps)
  have sub: "substr content (m ! 0) (m ! 1) = take (caps' ! 1) (drop p content)"
    by (simp add: substr_def m0 m1)
  show ?thesis unfolding sub using find_from_here [of here, OF a] by blast
qed

lemma file_of_match:
  assumes "m \<in> set (FindAllStringIndex reFile content)"
  shows "file_position (NewFile (substr content (m ! 0) (m ! 1)) m) = m"
proof -
  have "\<exists>caps. find_from reFile_here (substr content (m ! 0) (m ! 1)) 0 = Some caps"
  proof (rule match_again)
    show "m \<in> set (FindAllStringIndex (find_from reFile_here) content)"
      using assms by (simp add: reFile_def)
    fix bol s caps assume "reFile_here bol s = Some caps"
    then show "reFile_here True (take (caps ! 1) s) = Some caps
      \<and> 2 \<le> length caps \<and> caps ! 0 = 0 \<and> 0 < caps ! 1 \<and> caps ! 1 \<le> length s"
      using reFile_here_again by blast
  qed
  then show ?thesis by (auto simp: NewFile_def FindStringSubmatch_def reFile_def)
qed

lemma image_of_match:
  assumes "m \<in> set (FindAllStringIndex reImage content)"
  shows "image_position (NewImage (substr content (m ! 0) (m ! 1)) m) = m"
proof -
  have "\<exists>caps. find_from reImage_here (substr content (m ! 0) (m ! 1)) 0 = Some caps"
  proof (rule match_again)
    show "m \<in> set (FindAllStringIndex (find_from reImage_here) content)"
      using assms by (simp add: reImage_def)
    fix bol s caps assume "reImage_here bol s = Some caps"
    then show "reImage_here True (take (caps ! 1) s) = Some caps
      \<and> 2 \<le> length caps \<and> caps ! 0 = 0 \<and> 0 < caps ! 1 \<and> caps ! 1 \<le> length s"
      using reImage_here_again by blast
  qed
  then show ?thesis by (auto simp: NewImage_def FindStringSubmatch_def reImage_def)
qed

lemma map_filter_map_id:
  "(\<forall>m\<in>set ms. Q (f m) \<longrightarrow> g (f m) = m) \<Longrightarrow>
     map g (filter Q (map f ms)) = filter (\<lambda>m. Q (f m)) ms"
  by (induction ms) auto

text \<open>The spans of each collection of a parsed note are the matches of its pattern.\<close>

lemma LoadNote_tag_spans:
  "map tag_position (note_Tags (LoadNote T content)) =
     filter (\<lambda>m. 0 < length (tag_Name (NewTag T (substr content (m ! 0) (m ! 1)) m)))
       (FindAllStringIndex (reTag T) content)"
  unfolding LoadNote_def
  by (simp del: One_nat_def, rule map_filter_map_id) (simp add: tag_of_match del: One_nat_def)

lemma LoadNote_file_spans:
  "map file_position (note_Files (LoadNote T content)) = FindAllStringIndex reFile content"
  unfolding LoadNote_def by (simp add: comp_def file_of_match del: One_nat_def cong: map_cong)

lemma LoadNote_image_spans:
  "map image_position (note_Images (LoadNote T content)) = FindAllStringIndex reImage content"
  unfolding LoadNote_def by (simp add: comp_def image_of_match del: One_nat_def cong: map_cong)

lemma LoadNote_spans:
  "spans_between 0 (length content) (map tag_position (note_Tags (LoadNote T content)))"
  "spans_between 0 (length content) (map file_position (note_Files (LoadNote T content)))"
  "spans_between 0 (length content) (map image_position (note_Images (LoadNote T content)))"
proof -
  have "spans_between 0 (length content) (FindAllStringIndex (reTag T) content)"
    unfolding FindAllStringIndex_def by (rule allMatches_spans) (simp_all add: reTag_span del: One_nat_def)
  then show "spans_between 0 (length content) (map tag_position (note_Tags (LoadNote T content)))"
    unfolding LoadNote_tag_spans by (rule spans_between_filter)
  show "spans_between 0 (length content) (map file_position (note_Files (LoadNote T content)))"
    unfolding LoadNote_file_spans FindAllStringIndex_def
    by (rule allMatches_spans) (simp_all add: reFile_span del: One_nat_def)
  show "spans_between 0 (length content) (map image_position (note_Images (LoadNote T content)))"
    unfolding LoadNote_image_spans FindAllStringIndex_def
    by (rule allMatches_spans) (simp_all add: reImage_span del: One_nat_def)
qed

lemma LoadNote_tag_text:
  assumes "tag \<in> set (note_Tags (LoadNote T content))"
  shows "Tag_String tag = substr content (tag_position tag ! 0) (tag_position tag ! 1)"
proof -
  from assms obtain m where m: "m \<in> set (FindAllStringIndex (reTag T) content)"
    and tag: "tag = NewTag T (substr content (m ! 0) (m ! 1)) m"
    and name: "tag_Name tag \<noteq> []"
    by (auto simp: LoadNote_def)
  from tag_of_match [OF m] name show ?thesis by (simp add: tag)
qed

section \<open>Writing back what was read\<close>

lemma spans_between_nonoverlapping: "spans_between lo hi ps \<Longrightarrow> nonoverlapping ps"
proof (induction ps arbitrary: lo)
  case Nil
  then show ?case by simp
next
  case (Cons p ps)
  then have rest: "spans_between (p ! 1) hi ps" by simp
  then have "\<forall>q\<in>set ps. p ! 1 \<le> q ! 0" using spans_between_mem by blast
  then have "list_all (disjoint_spans p) ps" by (simp add: list_all_iff disjoint_spans_def)
  with Cons.IH [OF rest] show ?case by simp
qed

lemma nonoverlapping_append:
  "nonoverlapping (ps @ qs) \<longleftrightarrow>
     nonoverlapping ps \<and> nonoverlapping qs \<and> (\<forall>p\<in>set ps. \<forall>q\<in>set qs. disjoint_spans p q)"
  by (induction ps) (auto simp: list_all_iff)

lemma spans_between_span_in:
  "spans_between lo (length c) ps \<Longrightarrow> list_all (span_in c) ps"
  using spans_between_mem [of lo "length c" ps] by (auto simp: list_all_iff span_in_def)

text \<open>Where every item is written as the text of its span, the text comes back.\<close>

lemma splice_identity:
  assumes "spans_between cur (length c) (map item_position zs)"
    and "\<forall>z\<in>set zs. item_content z = substr c (item_position z ! 0) (item_position z ! 1)"
  shows "splice c cur zs = drop cur c"
  using assms
proof (induction zs arbitrary: cur)
  case Nil
  then show ?case by simp
next
  case (Cons z zs)
  let ?s = "item_position z ! 0" and ?e = "item_position z ! 1"
  from Cons.prems have le: "cur \<le> ?s" "?s < ?e"
    and rest: "spans_between ?e (length c) (map item_position zs)" by simp_all
  from Cons.prems Cons.IH [OF rest] have tail: "splice c ?e zs = drop ?e c" by simp
  have "drop cur c = take (?s - cur) (drop cur c) @ drop (?s - cur) (drop cur c)"
    by (rule append_take_drop_id [symmetric])
  also have "drop (?s - cur) (drop cur c) = drop ?s c" using le by simp
  also have "drop ?s c = take (?e - ?s) (drop ?s c) @ drop (?e - ?s) (drop ?s c)"
    by (rule append_take_drop_id [symmetric])
  also have "drop (?e - ?s) (drop ?s c) = drop ?e c" using le by simp
  finally show ?case using Cons.prems(2) tail by (simp add: substr_def)
qed

lemma LoadNote_content: "note_content (LoadNote T text) = text"
  by (simp add: LoadNote_def)

section \<open>Where a repetition stops\<close>

text \<open>A rune never reaches over an ASCII byte that follows its first byte.\<close>

lemma decode_before_ascii:
  assumes "DecodeRuneInString (a # x @ c # y) = (r, w)" and "of_char c < (128::nat)"
  shows "w \<le> Suc (length x)"
    and "(of_char a :: nat) < 128 \<Longrightarrow> r = of_char a"
    and "128 \<le> (of_char a :: nat) \<Longrightarrow> 128 \<le> r"
proof -
  show "(of_char a :: nat) < 128 \<Longrightarrow> r = of_char a"
    using assms(1) by (simp add: decode_ascii)
  show "128 \<le> (of_char a :: nat) \<Longrightarrow> 128 \<le> r"
    using decode_non_ascii(1) [OF _ assms(1)] by simp
  show "w \<le> Suc (length x)"
  proof (cases "(of_char a :: nat) < 128")
    case True
    with assms(1) show ?thesis by (simp add: decode_ascii)
  next
    case False
    then have a: "128 \<le> (of_char a :: nat)" by simp
    show ?thesis
    proof (rule ccontr)
      assume "\<not> w \<le> Suc (length x)"
      then have "length x < w - 1" by simp
      with decode_non_ascii(4) [OF a assms(1)]
      have "128 \<le> (of_char ((x @ c # y) ! length x) :: nat)" by blast
      with assms(2) show False by simp
    qed
  qed
qed

text \<open>
  A repetition of a class that holds either every rune from \<^verbatim>\<open>U+0080\<close> on or none of them
  runs over the bytes of the class up to the first ASCII byte outside it.
\<close>

lemma cls_run_stop:
  assumes "\<forall>b\<in>set x. P (of_char b) \<and> ((of_char b :: nat) < 128 \<or> (\<forall>r\<ge>128. P r))"
    and "of_char c < (128::nat)" and "\<not> P (of_char c)"
  shows "cls_run P (x @ c # y) = length x"
  using assms(1)
proof (induction "length x" arbitrary: x rule: less_induct)
  case less
  show ?case
  proof (cases x)
    case Nil
    with assms(2,3) show ?thesis by (simp add: cls_run_ascii)
  next
    case (Cons a x')
    obtain r w where d: "DecodeRuneInString (a # x' @ c # y) = (r, w)"
      by (cases "DecodeRuneInString (a # x' @ c # y)")
    have w: "w \<le> Suc (length x')" using d assms(2) by (rule decode_before_ascii)
    have wpos: "0 < w" using DecodeRuneInString_width_pos [of "a # x' @ c # y"] d by simp
    have "P r"
    proof (cases "(of_char a :: nat) < 128")
      case True
      then have "r = of_char a" using decode_before_ascii(2) [OF d assms(2)] by simp
      with less.prems Cons show ?thesis by simp
    next
      case False
      then have "128 \<le> r" using decode_before_ascii(3) [OF d assms(2)] by simp
      with less.prems Cons False show ?thesis by auto
    qed
    have "w \<le> length x" using w Cons by simp
    then have dr: "drop w (x @ c # y) = drop w x @ c # y" by simp
    have "cls_run P (drop w x @ c # y) = length (drop w x)"
    proof (rule less.hyps)
      show "length (drop w x) < length x" using wpos Cons by simp
      show "\<forall>b\<in>set (drop w x). P (of_char b) \<and> ((of_char b :: nat) < 128 \<or> (\<forall>r\<ge>128. P r))"
        using less.prems by (meson in_set_dropD)
    qed
    with \<open>P r\<close> d dr w Cons show ?thesis
      by (subst cls_run.simps) simp
  qed
qed

text \<open>
  \<^verbatim>\<open>[^(]*\)\<close> on a text without \<^verbatim>\<open>(\<close> that ends with \<^verbatim>\<open>)\<close>: the repetition takes all of it but
  the last byte.
\<close>

lemma close_paren_stop:
  assumes "CHR ''('' \<notin> set x"
  shows "close_paren (x @ '')'') = Some (length x)"
  using assms
proof (induction "length x" arbitrary: x rule: less_induct)
  case less
  show ?case
  proof (cases x)
    case Nil
    then show ?thesis by (simp add: close_paren_ascii close_paren_Nil)
  next
    case (Cons a x')
    obtain r w where d: "DecodeRuneInString (a # x' @ CHR '')'' # []) = (r, w)"
      by (cases "DecodeRuneInString (a # x' @ CHR '')'' # [])")
    have w: "w \<le> Suc (length x')" using d by (rule decode_before_ascii) simp
    have wpos: "0 < w" using DecodeRuneInString_width_pos [of "a # x' @ '')''"] d by simp
    have "r \<noteq> 40"
    proof (cases "(of_char a :: nat) < 128")
      case True
      then have "r = of_char a" using decode_before_ascii(2) [OF d] by simp
      moreover have "a \<noteq> CHR ''(''" using less.prems Cons by auto
      then have "(of_char a :: nat) \<noteq> 40"
        using of_char_eq_iff [of a "CHR ''(''", where ?'a = nat] by simp
      ultimately show ?thesis by simp
    next
      case False
      then have "128 \<le> r" using decode_before_ascii(3) [OF d] by simp
      then show ?thesis by simp
    qed
    have "w \<le> length x" using w Cons by simp
    then have dr: "drop w (x @ '')'') = drop w x @ '')''" by simp
    have "close_paren (drop w x @ '')'') = Some (length (drop w x))"
    proof (rule less.hyps)
      show "length (drop w x) < length x" using wpos Cons by simp
      show "CHR ''('' \<notin> set (drop w x)" using less.prems by (meson in_set_dropD)
    qed
    with \<open>r \<noteq> 40\<close> d dr w Cons show ?thesis
      by (subst close_paren.simps) simp
  qed
qed

section \<open>A text that is one image\<close>

text \<open>A text that one match covers from its first to its last byte.\<close>

lemma single_match:
  assumes here: "here True s = Some caps" and whole: "caps ! 1 = length s"
    and caps: "2 \<le> length caps" "caps ! 0 = 0" and ne: "s \<noteq> []"
    and empty: "\<And>b. here b [] = None"
  shows "find_from here s 0 = Some caps"
    and "FindAllStringIndex (find_from here) s = [[0, length s]]"
proof -
  show found: "find_from here s 0 = Some caps" using here by (rule find_from_here)
  have "find_from here s (length s) = None"
    by (subst find_from.simps) (simp add: empty)
  then have last: "allMatches (find_from here) s (length s) = []"
    by (subst allMatches.simps) simp
  have "take 2 caps = [caps ! 0, caps ! 1]"
    using caps(1) by (cases caps; cases "tl caps") auto
  with caps(2) whole have take: "take 2 caps = [0, length s]" by simp
  have "\<not> (length caps < 2 \<or> caps ! 1 \<le> 0)" using caps(1) whole ne by simp
  with found last take whole show "FindAllStringIndex (find_from here) s = [[0, length s]]"
    unfolding FindAllStringIndex_def by (subst allMatches.simps) (simp del: One_nat_def)
qed

lemma reImage_here_Nil: "reImage_here b [] = None"
  by (simp add: reImage_here_def lit_def)

lemma reFile_here_Nil: "reFile_here b [] = None"
  by (simp add: reFile_here_def lit_def)

lemma reImage_here_alone:
  assumes d: "CHR '']'' \<notin> set d" and u: "u \<noteq> []" "CHR ''('' \<notin> set u"
  shows "reImage_here b (''!['' @ d @ ''](''  @ u @ '')'') =
     Some [0, length d + length u + 5, 2, 2 + length d, length d + 4, length d + 4 + length u]"
proof -
  define s2 where "s2 = u @ '')''"
  define s1 where "s1 = d @ CHR '']'' # (''('' @ s2)"
  have a1: "lit ''!['' (CHR ''!'' # CHR ''['' # s1) = Some s1"
    by (simp add: lit_Some_iff)
  have a2: "cls_run (\<lambda>r. r \<noteq> 93) s1 = length d"
    unfolding s1_def
  proof (rule cls_run_stop)
    have "\<forall>b\<in>set d. (of_char b :: nat) \<noteq> 93"
    proof
      fix b assume "b \<in> set d"
      with d have "b \<noteq> CHR '']''" by auto
      then show "(of_char b :: nat) \<noteq> 93"
        using of_char_eq_iff [of b "CHR '']''", where ?'a = nat] by simp
    qed
    then show "\<forall>b\<in>set d. (of_char b :: nat) \<noteq> 93
        \<and> ((of_char b :: nat) < 128 \<or> (\<forall>r\<ge>128. r \<noteq> (93::nat)))"
      by simp
  qed simp_all
  have a3: "lit ''](''  (drop (length d) s1) = Some s2"
    by (simp add: lit_Some_iff s1_def)
  obtain a u' where uc: "u = a # u'" using u(1) by (cases u) auto
  obtain r w where dec: "DecodeRuneInString s2 = (r, w)"
    by (cases "DecodeRuneInString s2")
  from dec have dec': "DecodeRuneInString (a # u' @ CHR '')'' # []) = (r, w)"
    by (simp add: uc s2_def)
  have w: "w \<le> length u" using decode_before_ascii(1) [OF dec'] by (simp add: uc)
  have wpos: "0 < w" using DecodeRuneInString_width_pos [of s2] dec by (simp add: s2_def)
  have r: "r \<noteq> 40"
  proof (cases "(of_char a :: nat) < 128")
    case True
    then have "r = of_char a" using decode_before_ascii(2) [OF dec'] by simp
    moreover have "a \<noteq> CHR ''(''" using u(2) uc by auto
    ultimately show ?thesis
      using of_char_eq_iff [of a "CHR ''(''", where ?'a = nat] by simp
  next
    case False
    then have "128 \<le> r" using decode_before_ascii(3) [OF dec'] by simp
    then show ?thesis by simp
  qed
  have "CHR ''('' \<notin> set (drop w u)" using u(2) by (meson in_set_dropD)
  then have "close_paren (drop w u @ '')'') = Some (length (drop w u))"
    by (rule close_paren_stop)
  then have a5: "close_paren (drop w s2) = Some (length u - w)"
    using w by (simp add: s2_def)
  have "reImage_here b (''!['' @ s1) =
     Some [0, length d + length u + 5, 2, 2 + length d, length d + 4, length d + 4 + length u]"
    using wpos r w
    by (simp add: reImage_here_def a1 a2 a3 dec a5 Let_def)
  then show ?thesis by (simp add: s1_def s2_def)
qed

lemma substr_whole: "substr s 0 (length s) = s"
  by (simp add: substr_def)

text \<open>A text that is one image and nothing else.\<close>

lemma LoadNote_image_alone:
  assumes "CHR '']'' \<notin> set d" and "u \<noteq> []" and "CHR ''('' \<notin> set u"
  shows "note_Images (LoadNote T (''!['' @ d @ ''](''  @ u @ '')'')) =
     [\<lparr>image_Location = PathUnescape_ignoring_error u, image_Description = d,
       image_position = [0, length d + length u + 5]\<rparr>]"
proof -
  define s where "s = ''!['' @ d @ ''](''  @ u @ '')''"
  define caps where
    "caps = [0, length d + length u + 5, 2, 2 + length d, length d + 4, length d + 4 + length u]"
  have len: "length s = length d + length u + 5" by (simp add: s_def)
  have here: "reImage_here True s = Some caps"
    unfolding s_def caps_def using assms by (rule reImage_here_alone)
  have found: "reImage s 0 = Some caps"
    and all: "FindAllStringIndex reImage s = [[0, length s]]"
    unfolding reImage_def
    by (rule single_match [of reImage_here s caps, OF here]; simp add: caps_def len s_def reImage_here_Nil)+
  define p where "p = ''!['' @ d @ '']''"
  have p: "length p = length d + 3" "s = p @ ''('' @ u @ '')''"
    by (simp_all add: p_def s_def)
  have "substr s (length d + 4) (length d + 4 + length u) = u"
    by (simp add: substr_def p)
  moreover have "substr s 2 (2 + length d) = d"
    by (simp add: substr_def s_def)
  moreover have whole: "substr s 0 (length d + length u + 5) = s"
    by (simp add: substr_def len)
  ultimately have parts: "submatches s caps = [s, d, u]"
    by (simp add: caps_def)
  have "NewImage s [0, length s] =
      \<lparr>image_Location = PathUnescape_ignoring_error u, image_Description = d,
       image_position = [0, length s]\<rparr>"
    by (simp add: NewImage_def FindStringSubmatch_def found parts)
  then show ?thesis
    unfolding s_def [symmetric] by (simp add: LoadNote_def all whole len)
qed

section \<open>A text that is one file link\<close>

lemma reFile_here_alone:
  assumes k: "0 < k"
    and q1: "of_char q1 = (39::nat) \<or> of_char q1 = (34::nat)"
    and q2: "of_char q2 = (39::nat) \<or> of_char q2 = (34::nat)"
    and u: "u \<noteq> []" "\<forall>c\<in>set u. of_char c \<noteq> (39::nat) \<and> of_char c \<noteq> (34::nat)"
    and nm: "nm \<noteq> []" "CHR ''<'' \<notin> set nm"
  shows "reFile_here b (''<a'' @ replicate k CHR '' '' @ ''href='' @ q1 # u @ q2 # ''>'' @ nm @ ''</a>'')
     = Some [0, k + length u + length nm + 14, k + 8, k + 8 + length u, k + length u + 10,
             k + length u + 10 + length nm]"
proof -
  define s5 where "s5 = nm @ CHR ''<'' # ''/a>''"
  define s3 where "s3 = u @ q2 # (CHR ''>'' # s5)"
  define s1 where "s1 = replicate k CHR '' '' @ CHR ''h'' # (''ref='' @ q1 # s3)"
  have a1: "lit ''<a'' (CHR ''<'' # CHR ''a'' # s1) = Some s1"
    by (simp add: lit_Some_iff)
  have "cls_run (\<lambda>r. r = 32) s1 = length (replicate k CHR '' '')"
    unfolding s1_def by (rule cls_run_stop) simp_all
  then have a2: "cls_run (\<lambda>r. r = 32) s1 = k" by simp
  have a3: "lit ''href='' (drop k s1) = Some (q1 # s3)"
    by (simp add: lit_Some_iff s1_def)
  have a4: "quote (q1 # s3) = Some s3"
    using q1 by (auto simp: quote_def)
  have a5: "cls_run (\<lambda>r. r \<noteq> 39 \<and> r \<noteq> 34) s3 = length u"
    unfolding s3_def using u(2) q2 by (intro cls_run_stop) auto
  have a6: "quote (drop (length u) s3) = Some (CHR ''>'' # s5)"
    using q2 by (auto simp: quote_def s3_def)
  have a7: "lit ''>'' (CHR ''>'' # s5) = Some s5"
    by (simp add: lit_Some_iff)
  have a8: "cls_run (\<lambda>r. r \<noteq> 60) s5 = length nm"
    unfolding s5_def
  proof (rule cls_run_stop)
    have "\<forall>b\<in>set nm. (of_char b :: nat) \<noteq> 60"
    proof
      fix b assume "b \<in> set nm"
      with nm(2) have "b \<noteq> CHR ''<''" by auto
      then show "(of_char b :: nat) \<noteq> 60"
        using of_char_eq_iff [of b "CHR ''<''", where ?'a = nat] by simp
    qed
    then show "\<forall>b\<in>set nm. (of_char b :: nat) \<noteq> 60
        \<and> ((of_char b :: nat) < 128 \<or> (\<forall>r\<ge>128. r \<noteq> (60::nat)))"
      by simp
  qed simp_all
  have a9: "lit ''</a>'' (drop (length nm) s5) = Some []"
    by (simp add: lit_Some_iff s5_def)
  have "reFile_here b (''<a'' @ s1)
     = Some [0, k + length u + length nm + 14, k + 8, k + 8 + length u, k + length u + 10,
             k + length u + 10 + length nm]"
    using k u(1) nm(1)
    by (simp add: reFile_here_def a1 a2 a3 a4 a5 a6 a7 a8 a9 Let_def)
  then show ?thesis by (simp add: s1_def s3_def s5_def)
qed

text \<open>A text that is one file link and nothing else.\<close>

lemma LoadNote_file_alone:
  assumes "0 < k"
    and "of_char q1 = (39::nat) \<or> of_char q1 = (34::nat)"
    and "of_char q2 = (39::nat) \<or> of_char q2 = (34::nat)"
    and "u \<noteq> []" and "\<forall>c\<in>set u. of_char c \<noteq> (39::nat) \<and> of_char c \<noteq> (34::nat)"
    and "nm \<noteq> []" and "CHR ''<'' \<notin> set nm"
  shows "note_Files (LoadNote T (''<a'' @ replicate k CHR '' '' @ ''href='' @ q1 # u @ q2 # ''>'' @ nm @ ''</a>'')) =
     [\<lparr>file_Location = PathUnescape_ignoring_error u, file_Name = nm,
       file_position = [0, k + length u + length nm + 14]\<rparr>]"
proof -
  define s where "s = ''<a'' @ replicate k CHR '' '' @ ''href='' @ q1 # u @ q2 # ''>'' @ nm @ ''</a>''"
  define caps where
    "caps = [0, k + length u + length nm + 14, k + 8, k + 8 + length u, k + length u + 10,
             k + length u + 10 + length nm]"
  have len: "length s = k + length u + length nm + 14" by (simp add: s_def)
  have here: "reFile_here True s = Some caps"
    unfolding s_def caps_def using assms by (rule reFile_here_alone)
  have found: "reFile s 0 = Some caps"
    and all: "FindAllStringIndex reFile s = [[0, length s]]"
    unfolding reFile_def
    by (rule single_match [of reFile_here s caps, OF here]; simp add: caps_def len s_def reFile_here_Nil)+
  define p1 where "p1 = ''<a'' @ replicate k CHR '' '' @ ''href='' @ [q1]"
  define p2 where "p2 = p1 @ u @ q2 # ''>''"
  have p: "length p1 = k + 8" "s = p1 @ u @ q2 # ''>'' @ nm @ ''</a>''"
    "length p2 = k + length u + 10" "s = p2 @ nm @ ''</a>''"
    by (simp_all add: p1_def p2_def s_def)
  have "substr s (k + 8) (k + 8 + length u) = u"
    by (simp add: substr_def p(1,2))
  moreover have "substr s (k + length u + 10) (k + length u + 10 + length nm) = nm"
    by (simp add: substr_def p(3,4))
  moreover have whole: "substr s 0 (k + length u + length nm + 14) = s"
    by (simp add: substr_def len)
  ultimately have parts: "submatches s caps = [s, u, nm]"
    by (simp add: caps_def)
  have "NewFile s [0, length s] =
      \<lparr>file_Location = PathUnescape_ignoring_error u, file_Name = nm,
       file_position = [0, length s]\<rparr>"
    by (simp add: NewFile_def FindStringSubmatch_def found parts)
  then show ?thesis
    unfolding s_def [symmetric] by (simp add: LoadNote_def all whole len)
qed

lemma find_from_None:
  assumes "\<And>b p. here b (drop p s) = None"
  shows "find_from here s pos = None"
proof (induction "length s - pos" arbitrary: pos rule: less_induct)
  case less
  have nil: "here b [] = None" for b using assms [of b "length s"] by simp
  show ?case
  proof (cases "length s \<le> pos")
    case True
    then show ?thesis by (subst find_from.simps) (simp add: nil)
  next
    case False
    then have "drop pos s \<noteq> []" by simp
    then have "0 < snd (DecodeRuneInString (drop pos s))"
      by (rule DecodeRuneInString_width_pos)
    with False
    have "find_from here s (pos + snd (DecodeRuneInString (drop pos s))) = None"
      by (intro less.hyps) simp
    then show ?thesis by (subst find_from.simps) (simp add: assms)
  qed
qed

text \<open>The file pattern finds nothing in a text without \<^verbatim>\<open><\<close>.\<close>

lemma reFile_none:
  assumes "CHR ''<'' \<notin> set s"
  shows "FindAllStringIndex reFile s = []"
proof -
  have here: "reFile_here b (drop p s) = None" for b p
  proof (cases "drop p s")
    case Nil
    then show ?thesis by (simp add: reFile_here_Nil)
  next
    case (Cons c t)
    then have "c \<in> set s" by (metis in_set_dropD list.set_intros(1))
    with assms have "c \<noteq> CHR ''<''" by auto
    then show ?thesis by (simp add: Cons reFile_here_def lit_def)
  qed
  have "find_from reFile_here s 0 = None"
    using here by (rule find_from_None)
  then show ?thesis
    unfolding FindAllStringIndex_def reFile_def by (subst allMatches.simps) simp
qed

section \<open>What escapePath writes\<close>

lemma upperhex_not_escaped: "k < 16 \<Longrightarrow> \<not> shouldEscape (upperhex ! k)"
proof -
  assume "k < 16"
  then have
    "k = 0 \<or> k = 1 \<or> k = 2 \<or> k = 3 \<or> k = 4 \<or> k = 5 \<or> k = 6 \<or> k = 7 \<or> k = 8
      \<or> k = 9 \<or> k = 10 \<or> k = 11 \<or> k = 12 \<or> k = 13 \<or> k = 14 \<or> k = 15"
    by arith
  then show ?thesis by (auto simp: upperhex_def shouldEscape_def)
qed

lemma PathEscape_chars:
  "c \<in> set (PathEscape s) \<Longrightarrow> c = CHR ''%'' \<or> \<not> shouldEscape c"
  by (induction s) (auto simp: upperhex_not_escaped of_char_nibbles split: if_splits)

lemma escapePath_char_cases:
  "c \<in> set (escapePath p) \<Longrightarrow> c = CHR ''/'' \<or> c = CHR ''%'' \<or> \<not> shouldEscape c"
proof (induction p)
  case Nil
  then show ?case by (simp add: escapePath_Nil)
next
  case (Cons b p)
  then have "c \<in> set (if b = CHR ''/'' then ''/'' else PathEscape [b]) \<or> c \<in> set (escapePath p)"
    by (simp add: escapePath_Cons)
  then show ?case
  proof
    assume "c \<in> set (if b = CHR ''/'' then ''/'' else PathEscape [b])"
    then show ?thesis using PathEscape_chars [of c "[b]"] by (auto split: if_splits)
  next
    assume "c \<in> set (escapePath p)"
    then show ?thesis by (rule Cons.IH)
  qed
qed

lemma escapePath_chars:
  assumes "c \<in> set (escapePath p)"
  shows "c \<noteq> CHR ''(''" and "c \<noteq> CHR ''<''"
proof -
  have "c = CHR ''/'' \<or> c = CHR ''%'' \<or> \<not> shouldEscape c"
    using assms by (rule escapePath_char_cases)
  moreover have "shouldEscape CHR ''(''" "shouldEscape CHR ''<''"
    by (simp_all add: shouldEscape_def)
  ultimately show "c \<noteq> CHR ''(''" and "c \<noteq> CHR ''<''" by auto
qed

lemma escapePath_nonempty: "p \<noteq> [] \<Longrightarrow> escapePath p \<noteq> []"
  by (cases p) (auto simp: escapePath_Cons)

section \<open>A name in a text\<close>

text \<open>An ASCII byte after a text does not change the first rune of the text.\<close>

lemma decode_append_ascii:
  assumes "x \<noteq> []" and "of_char c < (128::nat)"
  shows "DecodeRuneInString (x @ c # y) = DecodeRuneInString x"
proof -
  obtain a t where x: "x = a # t" using assms(1) by (cases x) auto
  let ?n = "of_char a :: nat"
  let ?z = "t @ c # y"
  have c: "\<not> is_cont (of_char c)" "of_char c < accept_lo ?n"
    using assms(2) accept_lo_ge [of ?n] by (simp_all add: is_cont_def)
  have nth: "\<And>i. i < length t \<Longrightarrow> ?z ! i = t ! i" "?z ! length t = c"
    by (simp_all add: nth_append)
  show ?thesis
  proof (cases ?n rule: first_byte_cases)
    case ascii
    then show ?thesis by (simp add: x decode_ascii)
  next
    case invalid
    then show ?thesis by (simp add: x decode_invalid)
  next
    case two
    show ?thesis
    proof (cases t)
      case Nil
      with two c show ?thesis by (simp add: x decode_two)
    next
      case (Cons b t')
      with two show ?thesis by (simp add: x decode_two)
    qed
  next
    case three
    consider "length t = 0" | "length t = 1" | "2 \<le> length t" by arith
    then show ?thesis
    proof cases
      case 1
      with three c show ?thesis by (simp add: x decode_three)
    next
      case 2
      then have "?z ! 1 = c" using nth(2) by simp
      with three c 2 show ?thesis by (simp add: x decode_three)
    next
      case 3
      then have l: "0 < length t" "1 < length t" by linarith+
      have "?z ! 0 = t ! 0" "?z ! 1 = t ! 1"
        by (rule nth(1) [OF l(1)], rule nth(1) [OF l(2)])
      moreover have "\<not> length t < 2" using 3 by simp
      moreover have "\<not> length ?z < 2"
      proof -
        have "length ?z = length t + Suc (length y)" by simp
        with 3 show ?thesis by linarith
      qed
      moreover note decode_three [OF three, of ?z] decode_three [OF three, of t]
      ultimately show ?thesis unfolding x append_Cons by presburger
    qed
  next
    case four
    consider "length t = 0" | "length t = 1" | "length t = 2" | "3 \<le> length t" by arith
    then show ?thesis
    proof cases
      case 1
      with four c show ?thesis by (simp add: x decode_four)
    next
      case 2
      then have "?z ! 1 = c" using nth(2) by simp
      with four c 2 show ?thesis by (simp add: x decode_four)
    next
      case 3
      then have "?z ! 2 = c" using nth(2) by simp
      with four c 3 show ?thesis by (simp add: x decode_four)
    next
      case 4
      then have l: "0 < length t" "1 < length t" "2 < length t" by linarith+
      have "?z ! 0 = t ! 0" "?z ! 1 = t ! 1" "?z ! 2 = t ! 2"
        by (rule nth(1) [OF l(1)], rule nth(1) [OF l(2)], rule nth(1) [OF l(3)])
      moreover have "\<not> length t < 3" using 4 by simp
      moreover have "\<not> length ?z < 3"
      proof -
        have "length ?z = length t + Suc (length y)" by simp
        with 4 show ?thesis by linarith
      qed
      moreover note decode_four [OF four, of ?z] decode_four [OF four, of t]
      ultimately show ?thesis unfolding x append_Cons by presburger
    qed
  qed
qed

text \<open>A repetition that takes all of a text stops at an ASCII byte outside its class.\<close>

lemma cls_run_append:
  assumes "cls_run P x = length x" and "of_char c < (128::nat)" and "\<not> P (of_char c)"
  shows "cls_run P (x @ c # y) = length x"
  using assms
proof (induction P x rule: cls_run.induct)
  case (1 P x)
  show ?case
  proof (cases "x = []")
    case True
    with "1.prems" show ?thesis by (simp add: cls_run_ascii)
  next
    case False
    obtain r w where d: "DecodeRuneInString x = (r, w)" by (cases "DecodeRuneInString x")
    have wpos: "0 < w" using DecodeRuneInString_width_pos [OF False] d by simp
    have wle: "w \<le> length x" using decode_width_le [of x] d by simp
    have unf: "cls_run P x = (if P r then w + cls_run P (drop w x) else 0)"
      by (subst cls_run.simps) (simp add: False d)
    have xpos: "0 < length x" using False by simp
    have r: "P r" using unf "1.prems"(1) xpos by (cases "P r") simp_all
    have rest: "cls_run P (drop w x) = length x - w"
      using unf r "1.prems"(1) by simp
    have d': "DecodeRuneInString (x @ c # y) = (r, w)"
      using decode_append_ascii [OF False "1.prems"(2)] d by simp
    have "cls_run P (drop w x @ c # y) = length (drop w x)"
      using rest "1.prems"(2,3) by (intro "1.IH" [OF False d [symmetric] r]) simp_all
    moreover have "drop w (x @ c # y) = drop w x @ c # y" using wle by simp
    ultimately show ?thesis
      using d' r wle by (subst cls_run.simps) simp
  qed
qed


text \<open>The runes of a text, and the texts that a repetition takes whole.\<close>

lemma runes_Nil: "runes [] = []"
  by (subst runes.simps) simp

lemma runes_Cons:
  assumes "s \<noteq> []"
  shows "runes s = fst (DecodeRuneInString s) # runes (drop (snd (DecodeRuneInString s)) s)"
  using assms by (subst runes.simps) (simp add: case_prod_beta)

lemma cls_run_all: "cls_run P s = length s \<longleftrightarrow> list_all P (runes s)"
proof (induction P s rule: cls_run.induct)
  case (1 P s)
  show ?case
  proof (cases "s = []")
    case True
    then show ?thesis by (simp add: cls_run_Nil runes_Nil)
  next
    case False
    obtain r w where d: "DecodeRuneInString s = (r, w)" by (cases "DecodeRuneInString s")
    have wle: "w \<le> length s" using decode_width_le [of s] d by simp
    have unf: "cls_run P s = (if P r then w + cls_run P (drop w s) else 0)"
      by (subst cls_run.simps) (simp add: False d)
    have rs: "runes s = r # runes (drop w s)" using runes_Cons [OF False] d by simp
    have spos: "0 < length s" using False by simp
    show ?thesis
    proof (cases "P r")
      case True
      have "cls_run P (drop w s) = length (drop w s) \<longleftrightarrow> list_all P (runes (drop w s))"
        by (rule "1.IH" [OF False d [symmetric] True])
      moreover have "length (drop w s) = length s - w" by simp
      ultimately show ?thesis using True unf rs wle by auto
    next
      case False
      with unf rs spos show ?thesis by simp
    qed
  qed
qed

lemma is_tag_name_iff:
  "is_tag_name T name \<longleftrightarrow>
     name \<noteq> [] \<and> is_L T (fst (DecodeRuneInString name))
     \<and> cls_run (tag_class T) (drop (snd (DecodeRuneInString name)) name)
         = length name - snd (DecodeRuneInString name)"
proof (cases "name = []")
  case True
  then show ?thesis by (simp add: is_tag_name_def runes_Nil)
next
  case False
  let ?w = "snd (DecodeRuneInString name)"
  have "cls_run (tag_class T) (drop ?w name) = length (drop ?w name)
      \<longleftrightarrow> list_all (tag_class T) (runes (drop ?w name))"
    by (rule cls_run_all)
  then show ?thesis using False by (simp add: is_tag_name_def runes_Cons [OF False])
qed

text \<open>The second group of a match is a name.\<close>

lemma tag_core_name:
  assumes "tag_core T s = Some (n, a)"
  shows "is_tag_name T (take n (tl s))"
proof -
  from assms obtain s1 r w r2 w2 where s: "s = CHR ''#'' # s1"
    and d: "DecodeRuneInString s1 = (r, w)" and w: "0 < w" and l: "is_L T r"
    and n: "n = w + cls_run (tag_class T) (drop w s1)"
    by (rule tag_core_SomeE)
  have bound: "1 + n + a \<le> length s" using assms by (rule tag_core_bounds)
  then have nle: "n \<le> length s1" using s by simp
  have wn: "w \<le> n" using n by simp
  have dn: "DecodeRuneInString (take n s1) = (r, w)"
    using decode_take [of s1 n] d wn by simp
  have "cls_run (tag_class T) (take (n - w) (drop w s1)) = cls_run (tag_class T) (drop w s1)"
    by (rule cls_run_take) (simp add: n)
  moreover have "drop w (take n s1) = take (n - w) (drop w s1)" by (simp add: drop_take)
  ultimately have "cls_run (tag_class T) (drop w (take n s1)) = n - w"
    using n by simp
  moreover have "take n s1 \<noteq> []" using w wn nle by auto
  moreover have "length (take n s1) = n" using nle by simp
  ultimately show ?thesis
    unfolding is_tag_name_iff using dn l s by simp
qed

lemma NewTag_name:
  "tag_Name (NewTag T content position) = [] \<or> is_tag_name T (tag_Name (NewTag T content position))"
proof (cases "reTag T content 0")
  case None
  then show ?thesis by (simp add: NewTag_def FindStringSubmatch_def zero_Tag_def)
next
  case (Some caps)
  then have "find_from (reTag_here T) content 0 = Some caps" by (simp add: reTag_def)
  then obtain p caps' where p: "p \<le> length content"
    and here: "reTag_here T (p = 0) (drop p content) = Some caps'"
    and caps: "caps = map ((+) p) caps'"
    by (rule find_from_SomeE)
  from here obtain b n a where caps': "caps' = tag_caps b (n, a)"
    and core: "tag_core T (drop b (drop p content)) = Some (n, a)"
    by (rule reTag_here_SomeE)
  have c: "caps = [p, p + (b + 1 + n + a), p, p + b, p + (b + 1), p + (b + 1 + n),
      p + (b + 1 + n), p + (b + 1 + n + a)]"
    by (simp add: caps caps' tag_caps_def)
  have name: "submatches content caps ! 2 = take n (tl (drop b (drop p content)))"
    by (simp add: c substr_def drop_Suc tl_drop add_ac)
  have "is_tag_name T (take n (tl (drop b (drop p content))))"
    using core by (rule tag_core_name)
  with name have "is_tag_name T (submatches content caps ! 2)" by simp
  then show ?thesis
    by (simp add: NewTag_def FindStringSubmatch_def Some zero_Tag_def Let_def)
qed

lemma LoadNote_names:
  assumes "tag \<in> set (note_Tags (LoadNote T content))"
  shows "is_tag_name T (tag_Name tag)"
proof -
  from assms obtain m where "tag = NewTag T (substr content (m ! 0) (m ! 1)) m"
    and "tag_Name tag \<noteq> []"
    by (auto simp: LoadNote_def)
  then show ?thesis using NewTag_name [of T "substr content (m ! 0) (m ! 1)" m] by simp
qed


text \<open>A name in a text: what the pattern finds there.\<close>

lemma is_blank_facts:
  assumes "is_blank c"
  shows "of_char c < (128::nat)" and "of_char c \<noteq> (10::nat)" and "c \<noteq> CHR ''#''"
    and "\<not> tag_class T (of_char c)" and "IsSpace (of_char c)"
    and "DecodeRuneInString (c # y) = (of_char c, 1)"
proof -
  show a: "of_char c < (128::nat)" using assms by (auto simp: is_blank_def)
  show "of_char c \<noteq> (10::nat)" using assms by (auto simp: is_blank_def)
  show "c \<noteq> CHR ''#''" using assms by (auto simp: is_blank_def)
  show "\<not> tag_class T (of_char c)"
    using assms by (auto simp: is_blank_def tag_class_def is_L_def is_N_def)
  show "IsSpace (of_char c)" using assms by (auto simp: is_blank_def IsSpace_def)
  show "DecodeRuneInString (c # y) = (of_char c, 1)" using a by (rule decode_ascii)
qed

lemma is_tag_name_head:
  assumes "is_tag_name T name"
  shows "name \<noteq> []" and "hd name \<noteq> CHR ''#''" and "tag_core T (name @ y) = None"
proof -
  show ne: "name \<noteq> []" using assms by (simp add: is_tag_name_iff)
  then obtain c t where n: "name = c # t" by (cases name) auto
  have "c \<noteq> CHR ''#''"
  proof
    assume "c = CHR ''#''"
    then have "DecodeRuneInString name = (35, 1)" by (simp add: n decode_ascii)
    with assms show False by (simp add: is_tag_name_iff is_L_def)
  qed
  then show "hd name \<noteq> CHR ''#''" by (simp add: n)
  from \<open>c \<noteq> CHR ''#''\<close> show "tag_core T (name @ y) = None" by (simp add: n tag_core_def)
qed

lemma tag_core_of_name:
  assumes name: "is_tag_name T name"
  shows "tag_core T (CHR ''#'' # name) = Some (length name, 0)"
proof -
  obtain r w where d: "DecodeRuneInString name = (r, w)" by (cases "DecodeRuneInString name")
  have ne: "name \<noteq> []" and l: "is_L T r"
    and run: "cls_run (tag_class T) (drop w name) = length name - w"
    using name d by (simp_all add: is_tag_name_iff)
  have wpos: "0 < w" using DecodeRuneInString_width_pos [OF ne] d by simp
  have wle: "w \<le> length name" using decode_width_le [of name] d by simp
  show ?thesis using d l run wpos wle by (simp add: tag_core_def)
qed

lemma tag_core_of_name_then:
  assumes name: "is_tag_name T name"
    and c: "of_char c < (128::nat)" "\<not> tag_class T (of_char c)"
  shows "tag_core T (CHR ''#'' # name @ c # y)
      = Some (length name, if of_char c = (10::nat) then 0 else 1)"
proof -
  obtain r w where d: "DecodeRuneInString name = (r, w)" by (cases "DecodeRuneInString name")
  have ne: "name \<noteq> []" and l: "is_L T r"
    and run: "cls_run (tag_class T) (drop w name) = length name - w"
    using name d by (simp_all add: is_tag_name_iff)
  have wpos: "0 < w" using DecodeRuneInString_width_pos [OF ne] d by simp
  have wle: "w \<le> length name" using decode_width_le [of name] d by simp
  have d': "DecodeRuneInString (name @ c # y) = (r, w)"
    using decode_append_ascii [OF ne c(1)] d by simp
  have "cls_run (tag_class T) (drop w name @ c # y) = length (drop w name)"
    using run c by (intro cls_run_append) simp_all
  moreover have "drop w (name @ c # y) = drop w name @ c # y" using wle by simp
  ultimately have run': "cls_run (tag_class T) (drop w (name @ c # y)) = length name - w"
    by simp
  have n: "w + (length name - w) = length name" using wle by simp
  have rest: "DecodeRuneInString (drop (length name) (name @ c # y)) = (of_char c, 1)"
    using c(1) by (simp add: decode_ascii)
  show ?thesis
    using d' l wpos by (simp add: tag_core_def run' n rest del: drop_append)
qed

text \<open>The boundary of a tag: nothing, or one blank.\<close>

lemma boundary_cases:
  assumes "length x \<le> 1" and "list_all is_blank x"
  obtains (none) "x = []" | (one) c where "x = [c]" and "is_blank c"
proof (cases x)
  case Nil
  then show ?thesis by (rule none)
next
  case (Cons c t)
  with assms have "x = [c]" "is_blank c" by simp_all
  then show ?thesis by (rule one)
qed

lemma tag_core_bounded:
  assumes name: "is_tag_name T name"
    and post: "length post \<le> 1" "list_all is_blank post"
  shows "tag_core T (CHR ''#'' # name @ post) = Some (length name, length post)"
  using post
proof (cases post rule: boundary_cases)
  case none
  then show ?thesis using tag_core_of_name [OF name] by simp
next
  case (one c)
  have "tag_core T (CHR ''#'' # name @ c # [])
      = Some (length name, if of_char c = (10::nat) then 0 else 1)"
    using name is_blank_facts(1,4) [OF one(2)] by (rule tag_core_of_name_then)
  then show ?thesis using is_blank_facts(2) [OF one(2)] by (simp add: one(1))
qed

lemma reTag_here_bounded:
  assumes name: "is_tag_name T name"
    and pre: "length pre \<le> 1" "list_all is_blank pre"
    and post: "length post \<le> 1" "list_all is_blank post"
  shows "reTag_here T True (pre @ CHR ''#'' # name @ post)
      = Some (tag_caps (length pre) (length name, length post))"
proof -
  have core: "tag_core T (CHR ''#'' # name @ post) = Some (length name, length post)"
    using name post by (rule tag_core_bounded)
  from pre show ?thesis
  proof (cases pre rule: boundary_cases)
    case none
    then show ?thesis by (simp add: reTag_here_def core)
  next
    case (one b)
    have "tag_core T (b # CHR ''#'' # name @ post) = None"
      using is_blank_facts(3) [OF one(2)] by (simp add: tag_core_def)
    then show ?thesis
      using is_blank_facts(2,6) [OF one(2)] by (simp add: reTag_here_def core one(1))
  qed
qed

lemma reTag_here_Nil: "reTag_here T b [] = None"
  by (simp add: reTag_here_def tag_core_def)

lemma NewTag_bounded:
  assumes name: "is_tag_name T name"
    and pre: "length pre \<le> 1" "list_all is_blank pre"
    and post: "length post \<le> 1" "list_all is_blank post"
  shows "NewTag T (pre @ CHR ''#'' # name @ post) position =
     \<lparr>tag_Name = name, tag_position = position, tag_before = pre, tag_after = post\<rparr>"
proof -
  define s where "s = pre @ CHR ''#'' # name @ post"
  let ?caps = "tag_caps (length pre) (length name, length post)"
  have here: "reTag_here T True s = Some ?caps"
    unfolding s_def using assms by (rule reTag_here_bounded)
  have "find_from (reTag_here T) s 0 = Some ?caps"
    using here by (rule find_from_here)
  then have parts: "FindStringSubmatch (reTag T) s = Some (submatches s ?caps)"
    by (simp add: FindStringSubmatch_def reTag_def)
  have sub: "submatches s ?caps = [s, pre, name, post]"
    by (simp add: submatches_tag_caps substr_def s_def)
  have b: "pre = [] \<or> IsSpace (fst (DecodeRuneInString pre))"
    using pre by (cases pre rule: boundary_cases) (simp_all add: is_blank_facts)
  have a: "post = [] \<or> IsSpace (fst (DecodeRuneInString post))"
    using post by (cases post rule: boundary_cases) (simp_all add: is_blank_facts)
  show ?thesis
    unfolding s_def [symmetric] using a b by (auto simp: NewTag_def parts sub Let_def)
qed

lemma matches_one_tag:
  assumes name: "is_tag_name T name"
    and pre: "length pre \<le> 1" "list_all is_blank pre"
    and post: "length post \<le> 1" "list_all is_blank post"
  shows "FindAllStringIndex (reTag T) (pre @ CHR ''#'' # name @ post)
      = [[0, length pre + 1 + length name + length post]]"
proof -
  define s where "s = pre @ CHR ''#'' # name @ post"
  let ?caps = "tag_caps (length pre) (length name, length post)"
  have here: "reTag_here T True s = Some ?caps"
    unfolding s_def using assms by (rule reTag_here_bounded)
  have len: "length s = length pre + 1 + length name + length post" by (simp add: s_def)
  have "FindAllStringIndex (find_from (reTag_here T)) s = [[0, length s]]"
  proof (rule single_match(2) [of "reTag_here T" s ?caps])
    show "reTag_here T True s = Some ?caps" by (rule here)
    show "?caps ! 1 = length s" by (simp add: tag_caps_nth len)
    show "2 \<le> length ?caps" by (simp add: tag_caps_nth)
    show "?caps ! 0 = 0" by (simp add: tag_caps_nth)
    show "s \<noteq> []" by (simp add: s_def)
    show "\<And>b. reTag_here T b [] = None" by (rule reTag_here_Nil)
  qed
  moreover have "reTag T = find_from (reTag_here T)" by (rule ext)+ (simp add: reTag_def)
  ultimately show ?thesis unfolding s_def [symmetric] by (simp add: len)
qed

lemma LoadNote_one_tag:
  assumes name: "is_tag_name T name"
    and pre: "length pre \<le> 1" "list_all is_blank pre"
    and post: "length post \<le> 1" "list_all is_blank post"
  shows "note_Tags (LoadNote T (pre @ CHR ''#'' # name @ post)) =
     [\<lparr>tag_Name = name, tag_position = [0, length pre + 1 + length name + length post],
       tag_before = pre, tag_after = post\<rparr>]"
proof -
  define s where "s = pre @ CHR ''#'' # name @ post"
  define e where "e = length pre + 1 + length name + length post"
  have len: "length s = e" by (simp add: s_def e_def)
  have m: "FindAllStringIndex (reTag T) s = [[0, e]]"
    unfolding s_def e_def using assms by (rule matches_one_tag)
  have t: "NewTag T s [0, e] =
      \<lparr>tag_Name = name, tag_position = [0, e], tag_before = pre, tag_after = post\<rparr>"
    unfolding s_def using assms by (rule NewTag_bounded)
  have ne: "name \<noteq> []" using name by (rule is_tag_name_head)
  have "substr s 0 e = s" using substr_whole [of s] len by simp
  then have "note_Tags (LoadNote T s) =
      [\<lparr>tag_Name = name, tag_position = [0, e], tag_before = pre, tag_after = post\<rparr>]"
    using ne by (simp add: LoadNote_def m t)
  then show ?thesis unfolding s_def e_def .
qed

lemma runes_ascii:
  "\<forall>b\<in>set s. of_char b < (128::nat) \<Longrightarrow> runes s = map of_char s"
proof (induction s)
  case Nil
  then show ?case by (simp add: runes_Nil)
next
  case (Cons c s)
  then have "DecodeRuneInString (c # s) = (of_char c, 1)" by (simp add: decode_ascii)
  with Cons show ?case by (simp add: runes_Cons)
qed

section \<open>Two tags and one character between them\<close>

lemma reTag_here_name:
  assumes "is_tag_name T name"
  shows "reTag_here T bol (CHR ''#'' # name) = Some (tag_caps 0 (length name, 0))"
proof -
  have core: "tag_core T (CHR ''#'' # name) = Some (length name, 0)"
    using assms by (rule tag_core_of_name)
  have "tag_core T (name @ []) = None" using assms by (rule is_tag_name_head)
  then have none: "tag_core T name = None" by simp
  show ?thesis by (simp add: reTag_here_def core none decode_ascii)
qed

lemma matches_two_tags:
  assumes n1: "is_tag_name T n1" and n2: "is_tag_name T n2"
    and w: "is_blank w \<or> of_char w = (10::nat)"
  shows "FindAllStringIndex (reTag T) (CHR ''#'' # n1 @ w # CHR ''#'' # n2) =
     [[0, length n1 + (if of_char w = (10::nat) then 1 else 2)],
      [length n1 + 2, length n1 + length n2 + 3]]"
proof -
  define s where "s = CHR ''#'' # n1 @ w # CHR ''#'' # n2"
  define a :: nat where "a = (if of_char w = (10::nat) then 0 else 1)"
  define e1 where "e1 = 1 + length n1 + a"
  define p2 where "p2 = length n1 + 2"
  define caps2 where "caps2 = map ((+) p2) (tag_caps 0 (length n2, 0))"
  let ?re = "find_from (reTag_here T)"
  have len: "length s = length n1 + length n2 + 3" by (simp add: s_def)
  have wf: "of_char w < (128::nat)" "\<not> tag_class T (of_char w)" "w \<noteq> CHR ''#''"
    using w is_blank_facts(1,3) [of w] is_blank_facts(4) [of w T]
    by (auto simp: tag_class_def is_L_def is_N_def)
  have core1: "tag_core T s = Some (length n1, a)"
    unfolding s_def a_def using n1 wf(1,2) by (rule tag_core_of_name_then)
  have "reTag_here T True s = Some (tag_caps 0 (length n1, a))"
    by (simp add: reTag_here_def core1)
  then have f1: "?re s 0 = Some (tag_caps 0 (length n1, a))" by (rule find_from_here)
  have here2: "\<And>bol. reTag_here T bol (CHR ''#'' # n2) = Some (tag_caps 0 (length n2, 0))"
    using n2 by (rule reTag_here_name)
  have d2: "drop p2 s = CHR ''#'' # n2" by (simp add: s_def p2_def)
  have f2': "?re s p2 = Some caps2"
    by (subst find_from.simps) (simp add: d2 here2 len caps2_def, simp add: p2_def)
  have f2: "?re s e1 = Some caps2"
  proof (cases "of_char w = (10::nat)")
    case False
    then have "e1 = p2" by (simp add: e1_def a_def p2_def)
    with f2' show ?thesis by simp
  next
    case True
    then have e1: "e1 = length n1 + 1" by (simp add: e1_def a_def)
    have d1: "drop e1 s = w # CHR ''#'' # n2" by (simp add: s_def e1)
    have dec: "DecodeRuneInString (w # CHR ''#'' # n2) = (10, 1)"
      using decode_ascii [OF wf(1), of "CHR ''#'' # n2"] True by simp
    have "tag_core T (w # CHR ''#'' # n2) = None" using wf(3) by (simp add: tag_core_def)
    then have none: "reTag_here T False (w # CHR ''#'' # n2) = None"
      by (simp add: reTag_here_def dec)
    have in_range: "e1 \<noteq> 0" "\<not> length s < e1" "\<not> length s \<le> e1"
      by (simp_all add: e1 len)
    have "?re s e1 = ?re s (e1 + 1)"
      by (subst find_from.simps) (simp add: d1 none dec in_range)
    moreover have "e1 + 1 = p2" by (simp add: e1 p2_def)
    ultimately show ?thesis using f2' by simp
  qed
  have "?re s (length s) = None"
    by (subst find_from.simps) (simp add: reTag_here_Nil)
  then have m3: "allMatches ?re s (length s) = []"
    by (subst allMatches.simps) simp
  have c2: "length caps2 = 8" "caps2 ! 1 = length s" "caps2 ! Suc 0 = length s"
    "take 2 caps2 = [p2, length s]"
    by (simp_all add: caps2_def tag_caps_def len p2_def)
  have "e1 < length s" by (simp add: e1_def a_def len)
  then have m2: "allMatches ?re s e1 = [[p2, length s]]"
    by (subst allMatches.simps) (simp add: f2 c2 m3 del: One_nat_def)
  have c1: "length (tag_caps 0 (length n1, a)) = 8" "tag_caps 0 (length n1, a) ! 1 = e1"
    "tag_caps 0 (length n1, a) ! Suc 0 = e1" "take 2 (tag_caps 0 (length n1, a)) = [0, e1]"
    by (simp_all add: tag_caps_def e1_def)
  have "0 < e1" by (simp add: e1_def)
  then have "allMatches ?re s 0 = [[0, e1], [p2, length s]]"
    by (subst allMatches.simps) (simp add: f1 c1 m2 del: One_nat_def)
  moreover have "reTag T = ?re" by (rule ext)+ (simp add: reTag_def)
  moreover have "e1 = length n1 + (if of_char w = (10::nat) then 1 else 2)"
    by (simp add: e1_def a_def)
  ultimately show ?thesis
    unfolding s_def [symmetric] by (simp add: FindAllStringIndex_def len p2_def)
qed

lemma LoadNote_two_tags:
  assumes n1: "is_tag_name T n1" and n2: "is_tag_name T n2"
    and w: "is_blank w \<or> of_char w = (10::nat)"
  shows "note_Tags (LoadNote T (CHR ''#'' # n1 @ w # CHR ''#'' # n2)) =
     [\<lparr>tag_Name = n1, tag_position = [0, length n1 + (if of_char w = (10::nat) then 1 else 2)],
       tag_before = [], tag_after = (if of_char w = (10::nat) then [] else [w])\<rparr>,
      \<lparr>tag_Name = n2, tag_position = [length n1 + 2, length n1 + length n2 + 3],
       tag_before = [], tag_after = []\<rparr>]"
proof -
  define s where "s = CHR ''#'' # n1 @ w # CHR ''#'' # n2"
  define post where "post = (if of_char w = (10::nat) then [] else [w])"
  define e1 where "e1 = length n1 + (if of_char w = (10::nat) then 1 else 2)"
  define p2 where "p2 = length n1 + 2"
  define e2 where "e2 = length n1 + length n2 + 3"
  have m: "FindAllStringIndex (reTag T) s = [[0, e1], [p2, e2]]"
    unfolding s_def e1_def p2_def e2_def using assms by (rule matches_two_tags)
  have post: "length post \<le> 1" "list_all is_blank post"
    using w by (auto simp: post_def)
  have s1: "substr s 0 e1 = [] @ CHR ''#'' # n1 @ post"
    by (simp add: substr_def s_def e1_def post_def)
  have s2: "substr s p2 e2 = [] @ CHR ''#'' # n2 @ []"
    by (simp add: substr_def s_def p2_def e2_def)
  have t1: "NewTag T (substr s 0 e1) [0, e1] =
      \<lparr>tag_Name = n1, tag_position = [0, e1], tag_before = [], tag_after = post\<rparr>"
    unfolding s1 using n1 _ _ post by (rule NewTag_bounded) simp_all
  have t2: "NewTag T (substr s p2 e2) [p2, e2] =
      \<lparr>tag_Name = n2, tag_position = [p2, e2], tag_before = [], tag_after = []\<rparr>"
    unfolding s2 using n2 by (rule NewTag_bounded) simp_all
  have ne: "n1 \<noteq> []" "n2 \<noteq> []" using n1 n2 by (simp_all add: is_tag_name_head)
  have "note_Tags (LoadNote T s) =
     [\<lparr>tag_Name = n1, tag_position = [0, e1], tag_before = [], tag_after = post\<rparr>,
      \<lparr>tag_Name = n2, tag_position = [p2, e2], tag_before = [], tag_after = []\<rparr>]"
    using ne by (simp add: LoadNote_def m t1 t2 del: One_nat_def)
  then show ?thesis unfolding s_def post_def e1_def p2_def e2_def .
qed

section \<open>Writing a note with one item changed\<close>

lemma substr_append:
  assumes "a \<le> b" and "b \<le> d"
  shows "substr c a b @ substr c b d = substr c a d"
proof -
  have "substr c a d = take ((b - a) + (d - b)) (drop a c)"
    using assms by (simp add: substr_def)
  also have "\<dots> = take (b - a) (drop a c) @ take (d - b) (drop (b - a) (drop a c))"
    by (rule take_add)
  also have "drop (b - a) (drop a c) = drop b c" using assms by simp
  finally show ?thesis by (simp add: substr_def)
qed

lemma splice_one:
  assumes "spans_between cur (length c) (map item_position zs)"
    and "z \<in> set zs"
    and "\<forall>y\<in>set zs. y \<noteq> z \<longrightarrow>
           item_content y = substr c (item_position y ! 0) (item_position y ! 1)"
  shows "splice c cur zs =
     substr c cur (item_position z ! 0) @ item_content z @ drop (item_position z ! 1) c"
  using assms
proof (induction zs arbitrary: cur)
  case Nil
  then show ?case by simp
next
  case (Cons y zs)
  define s where "s = item_position y ! 0"
  define e where "e = item_position y ! 1"
  define zs0 where "zs0 = item_position z ! 0"
  have chain: "spans_between cur (length c) (item_position y # map item_position zs)"
    using Cons.prems(1) by simp
  then have le: "cur \<le> s" "s < e"
    and rest: "spans_between e (length c) (map item_position zs)"
    unfolding s_def e_def by simp_all
  have unf: "splice c cur (y # zs) = substr c cur s @ item_content y @ splice c e zs"
    by (simp add: substr_def s_def e_def)
  have after: "\<And>x. x \<in> set zs \<Longrightarrow> e \<le> item_position x ! 0"
  proof -
    fix x assume "x \<in> set zs"
    then have "item_position x \<in> set (map item_position zs)" by simp
    with rest show "e \<le> item_position x ! 0" using spans_between_mem by blast
  qed
  show ?case
  proof (cases "y = z")
    case True
    have "\<forall>x\<in>set zs. item_content x = substr c (item_position x ! 0) (item_position x ! 1)"
    proof
      fix x assume x: "x \<in> set zs"
      have "x \<noteq> z"
      proof
        assume "x = z"
        then have "item_position x ! 0 = s" unfolding s_def True by simp
        with after [OF x] le(2) show False by simp
      qed
      with x Cons.prems(3) show "item_content x = substr c (item_position x ! 0) (item_position x ! 1)"
        by simp
    qed
    with rest have "splice c e zs = drop e c" by (rule splice_identity)
    with unf have "splice c cur (y # zs) = substr c cur s @ item_content y @ drop e c"
      by simp
    then show ?thesis unfolding s_def e_def True .
  next
    case False
    with Cons.prems(2) have z: "z \<in> set zs" by simp
    have y: "item_content y = substr c s e"
      using Cons.prems(3) False unfolding s_def e_def by simp
    from Cons.prems(3) have "\<forall>y\<in>set zs. y \<noteq> z \<longrightarrow>
           item_content y = substr c (item_position y ! 0) (item_position y ! 1)" by simp
    with rest z have tail: "splice c e zs =
        substr c e (item_position z ! 0) @ item_content z @ drop (item_position z ! 1) c"
      by (rule Cons.IH)
    have ez: "e \<le> zs0" unfolding zs0_def using z by (rule after)
    have "substr c s e @ substr c e zs0 = substr c s zs0"
      using le(2) ez by (intro substr_append) simp_all
    moreover have "substr c cur s @ substr c s zs0 = substr c cur zs0"
      using le ez by (intro substr_append) simp_all
    ultimately have "substr c cur s @ substr c s e @ substr c e zs0 = substr c cur zs0"
      by simp
    then have "(substr c cur s @ substr c s e @ substr c e zs0) @ item_content z
        @ drop (item_position z ! 1) c
      = substr c cur zs0 @ item_content z @ drop (item_position z ! 1) c"
      by (rule arg_cong)
    moreover have "splice c cur (y # zs) =
        (substr c cur s @ substr c s e @ substr c e zs0) @ item_content z
        @ drop (item_position z ! 1) c"
      unfolding unf y tail zs0_def by simp
    ultimately show ?thesis unfolding zs0_def by simp
  qed
qed

lemma WriteNote_tag_renamed:
  assumes i: "i < length (note_Tags (LoadNote T content))"
    and files: "note_Files (LoadNote T content) = []"
    and images: "\<forall>img\<in>set (note_Images (LoadNote T content)).
           Image_String img = substr content (image_position img ! 0) (image_position img ! 1)"
    and apart: "\<forall>tag\<in>set (note_Tags (LoadNote T content)).
           \<forall>img\<in>set (note_Images (LoadNote T content)).
             disjoint_spans (tag_position tag) (image_position img)"
  shows "Option.bind (set_tag_Name i name (LoadNote T content)) WriteNote =
     Some (take (tag_position (note_Tags (LoadNote T content) ! i) ! 0) content
           @ Tag_String ((note_Tags (LoadNote T content) ! i)\<lparr>tag_Name := name\<rparr>)
           @ drop (tag_position (note_Tags (LoadNote T content) ! i) ! 1) content)"
proof -
  define n where "n = LoadNote T content"
  define ts where "ts = note_Tags n"
  define t' where "t' = (ts ! i)\<lparr>tag_Name := name\<rparr>"
  define n' where "n' = n\<lparr>note_Tags := ts[i := t']\<rparr>"
  define z where "z = \<lparr>item_content = Tag_String t', item_position = tag_position t'\<rparr>"
  let ?zs = "sort_key (\<lambda>item. item_position item ! 0) (note_items n')"
  have i': "i < length ts" using i by (simp add: ts_def n_def)
  have set: "set_tag_Name i name n = Some n'"
    using i' by (simp add: set_tag_Name_def n'_def t'_def ts_def)
  have pos: "tag_position t' = tag_position (ts ! i)" by (simp add: t'_def)
  have "map tag_position (ts[i := t']) = (map tag_position ts)[i := tag_position (ts ! i)]"
    by (simp add: map_update pos)
  also have "\<dots> = map tag_position ts" using i' by (simp add: list_update_same_conv)
  finally have same: "map tag_position (ts[i := t']) = map tag_position ts" .
  have spans: "note_spans n' = map tag_position ts @ map image_position (note_Images n)"
    using files by (simp add: note_spans_def n'_def same n_def)
  have content: "note_content n' = content" by (simp add: n'_def n_def LoadNote_content)
  have ok: "list_all (span_in (note_content n')) (note_spans n')"
    using LoadNote_spans(1,3) [of content T, THEN spans_between_span_in]
    by (simp add: spans content ts_def n_def)
  have no: "nonoverlapping (note_spans n')"
    using LoadNote_spans(1,3) [of content T, THEN spans_between_nonoverlapping] apart
    by (simp add: spans nonoverlapping_append ts_def n_def)
  have written: "WriteNote n' = Some (render_by_start n')"
    and chain: "spans_between 0 (length (note_content n')) (map item_position ?zs)"
    using ok no by (rule WriteNote_splice)+
  have "t' \<in> set (ts[i := t'])" using i' by (rule set_update_memI)
  then have zin: "z \<in> set ?zs" by (auto simp: note_items_def n'_def z_def)
  have others: "\<forall>y\<in>set ?zs. y \<noteq> z \<longrightarrow>
      item_content y = substr content (item_position y ! 0) (item_position y ! 1)"
  proof (intro ballI impI)
    fix y assume y: "y \<in> set ?zs" and yz: "y \<noteq> z"
    from y have "y \<in> set (note_items n')" by simp
    then consider t where "t \<in> set (ts[i := t'])"
        "y = \<lparr>item_content = Tag_String t, item_position = tag_position t\<rparr>"
      | img where "img \<in> set (note_Images n)"
        "y = \<lparr>item_content = Image_String img, item_position = image_position img\<rparr>"
      using files by (auto simp: note_items_def n'_def n_def)
    then show "item_content y = substr content (item_position y ! 0) (item_position y ! 1)"
    proof cases
      case 1
      from 1(1) have "t = t' \<or> t \<in> set ts"
        using set_update_subset_insert [of ts i t'] by auto
      with 1(2) yz have "t \<in> set ts" by (auto simp: z_def)
      then have "Tag_String t = substr content (tag_position t ! 0) (tag_position t ! 1)"
        unfolding ts_def n_def by (rule LoadNote_tag_text)
      with 1(2) show ?thesis by simp
    next
      case 2
      with images show ?thesis by (simp add: n_def)
    qed
  qed
  have "splice content 0 ?zs =
      substr content 0 (item_position z ! 0) @ item_content z @ drop (item_position z ! 1) content"
    using chain zin others unfolding content by (rule splice_one)
  then have "render_by_start n' =
      take (tag_position (ts ! i) ! 0) content @ Tag_String t'
      @ drop (tag_position (ts ! i) ! 1) content"
    by (simp add: render_by_start_def content z_def pos substr_def)
  with written set show ?thesis
    unfolding n_def [symmetric] ts_def [symmetric] t'_def [symmetric] by simp
qed

section \<open>The claims\<close>


text \<open>
  C9. \<^verbatim>\<open>escapePath\<close> leaves every \<^verbatim>\<open>/\<close> as it is and escapes every other byte as
  \<^verbatim>\<open>PathEscape\<close> does, so each component between two \<^verbatim>\<open>/\<close> is escaped on its own; the
  escaped components contain no \<^verbatim>\<open>/\<close>. The location
  \<^verbatim>\<open>note_with_nested(parenthesis)/test.jpg\<close> becomes
  \<^verbatim>\<open>note_with_nested%28parenthesis%29/test.jpg\<close>.
\<close>

theorem C9_escapePath_components:
  "escapePath p = concat (map (\<lambda>c. if c = CHR ''/'' then [c] else PathEscape [c]) p)
   \<and> escapePath (a @ ''/'' @ b) = escapePath a @ ''/'' @ escapePath b
   \<and> CHR ''/'' \<notin> set (PathEscape component)
   \<and> escapePath ''note_with_nested(parenthesis)/test.jpg''
         = ''note_with_nested%28parenthesis%29/test.jpg''"
proof -
  have "escapePath p = concat (map (\<lambda>c. if c = CHR ''/'' then [c] else PathEscape [c]) p)"
    by (rule escapePath_bytes)
  moreover have "escapePath (a @ ''/'' @ b) = escapePath a @ ''/'' @ escapePath b"
    by (simp add: escapePath_append escapePath_Cons)
  moreover have "CHR ''/'' \<notin> set (PathEscape component)"
    by (rule slash_notin_PathEscape)
  moreover have "escapePath ''note_with_nested(parenthesis)/test.jpg''
     = ''note_with_nested%28parenthesis%29/test.jpg''"
    by (simp add: escapePath_bytes shouldEscape_def upperhex_def)
  ultimately show ?thesis by blast
qed

text \<open>
  C1 (amended). Parsing a text and writing the note back at once returns the text,
  provided that the file pattern matches nowhere in it, that every image is already
  written as \<^verbatim>\<open>Image.String\<close> writes it (its path in the escaped form) and that no tag
  overlaps an image. This covers every text in which only tags are found, and the empty
  text.
\<close>

theorem C1_round_trip_of_tags_and_canonical_images:
  assumes "note_Files (LoadNote T text) = []"
    and "\<forall>img\<in>set (note_Images (LoadNote T text)).
           Image_String img = substr text (image_position img ! 0) (image_position img ! 1)"
    and "\<forall>tag\<in>set (note_Tags (LoadNote T text)). \<forall>img\<in>set (note_Images (LoadNote T text)).
           disjoint_spans (tag_position tag) (image_position img)"
  shows "WriteNote (LoadNote T text) = Some text"
proof -
  let ?n = "LoadNote T text"
  let ?zs = "sort_key (\<lambda>item. item_position item ! 0) (note_items ?n)"
  have spans: "note_spans ?n = map tag_position (note_Tags ?n) @ map image_position (note_Images ?n)"
    by (simp add: note_spans_def assms(1))
  have ok: "list_all (span_in (note_content ?n)) (note_spans ?n)"
    using LoadNote_spans(1,3) [of "text" T, THEN spans_between_span_in]
    by (simp add: spans LoadNote_content)
  have no: "nonoverlapping (note_spans ?n)"
    using LoadNote_spans(1,3) [of "text" T, THEN spans_between_nonoverlapping] assms(3)
    by (simp add: spans nonoverlapping_append)
  have written: "WriteNote ?n = Some (render_by_start ?n)"
    and chain: "spans_between 0 (length (note_content ?n)) (map item_position ?zs)"
    using ok no by (rule WriteNote_splice)+
  have "\<forall>z\<in>set (note_items ?n).
      item_content z = substr text (item_position z ! 0) (item_position z ! 1)"
    using assms(2) LoadNote_tag_text [of _ T "text"]
    by (auto simp: note_items_def assms(1))
  then have "\<forall>z\<in>set ?zs. item_content z = substr text (item_position z ! 0) (item_position z ! 1)"
    by simp
  with chain have "splice text 0 ?zs = drop 0 text"
    unfolding LoadNote_content by (rule splice_identity)
  with written show ?thesis by (simp add: render_by_start_def LoadNote_content)
qed

theorem C1_round_trip_witness:
  "note_Files (LoadNote tables_Latin1 ''x ![d](a/b.png) #tag y'') = []
   \<and> note_Images (LoadNote tables_Latin1 ''x ![d](a/b.png) #tag y'')
       = [\<lparr>image_Location = ''a/b.png'', image_Description = ''d'', image_position = [2, 15]\<rparr>]
   \<and> Image_String \<lparr>image_Location = ''a/b.png'', image_Description = ''d'',
                      image_position = [2, 15]\<rparr>
       = substr ''x ![d](a/b.png) #tag y'' 2 15
   \<and> map tag_position (note_Tags (LoadNote tables_Latin1 ''x ![d](a/b.png) #tag y''))
       = [[15, 21]]
   \<and> disjoint_spans [15, 21] [2, 15]
   \<and> WriteNote (LoadNote tables_Latin1 ''x ![d](a/b.png) #tag y'')
       = Some ''x ![d](a/b.png) #tag y''"
proof -
  let ?text = "''x ![d](a/b.png) #tag y''"
  have load: "LoadNote tables_Latin1 ?text =
      \<lparr>note_Tags = [\<lparr>tag_Name = ''tag'', tag_position = [15, 21], tag_before = '' '',
                      tag_after = '' ''\<rparr>],
       note_Files = [],
       note_Images = [\<lparr>image_Location = ''a/b.png'', image_Description = ''d'',
                        image_position = [2, 15]\<rparr>],
       note_content = ?text\<rparr>"
    by (simp add: load_simps)
  have h1: "note_Files (LoadNote tables_Latin1 ?text) = []"
    by (simp add: load)
  have h2: "\<forall>img\<in>set (note_Images (LoadNote tables_Latin1 ?text)).
      Image_String img = substr ?text (image_position img ! 0) (image_position img ! 1)"
    by (simp add: load Image_String_def substr_def escapePath_bytes shouldEscape_def)
  have h3: "\<forall>tag\<in>set (note_Tags (LoadNote tables_Latin1 ?text)).
      \<forall>img\<in>set (note_Images (LoadNote tables_Latin1 ?text)).
        disjoint_spans (tag_position tag) (image_position img)"
    by (simp add: load disjoint_spans_def)
  from C1_round_trip_of_tags_and_canonical_images [OF h1 h2 h3]
  show ?thesis
    by (simp add: load Image_String_def substr_def escapePath_bytes shouldEscape_def
          disjoint_spans_def)
qed

theorem C1_round_trip_counterexample:
  \<open>WriteNote (LoadNote tables_Latin1 ''<a href="a">b</a>'') = Some ''[b](a)''
   \<and> WriteNote (LoadNote tables_Latin1 ''<a href="a">b</a>'') \<noteq> Some ''<a href="a">b</a>''
   \<and> WriteNote (LoadNote tables_Latin1 ''![](a b)'') = Some ''![](a%20b)''
   \<and> WriteNote (LoadNote tables_Latin1 ''![ #a ](b)'') = None\<close>
  by (simp add: load_simps write_simps escapePath_bytes shouldEscape_def upperhex_def)

text \<open>
  C2. For every note whose spans are well formed (two offsets, a range that is not empty
  and lies in the content) and pairwise do not overlap, \<^verbatim>\<open>WriteNote\<close> returns what the
  serializer of the specification returns: the items sorted by the start of their span,
  whichever collection they come from, each rendered item in the place of its span and the
  original text in between, before and after. The sorted spans follow one another, so each
  stretch of original text is written once, in its place.
\<close>

theorem C2_WriteNote_in_span_order:
  assumes "list_all (span_in (note_content note)) (note_spans note)"
    and "nonoverlapping (note_spans note)"
  shows "WriteNote note = Some (render_by_start note)
         \<and> spans_between 0 (length (note_content note))
              (map item_position (sort_key (\<lambda>item. item_position item ! 0) (note_items note)))"
  using WriteNote_splice [OF assms] by simp

text \<open>
  An image at offset 0 and a tag at offset 7, both changed: the image is written first,
  though the tags come first in the list of items.
\<close>

theorem C2_WriteNote_in_span_order_witness:
  "list_all (span_in ''![d](a) #t'') [[7, 10], [0, 7]]
   \<and> nonoverlapping [[7, 10], [0, 7]]
   \<and> WriteNote
        \<lparr>note_Tags = [\<lparr>tag_Name = ''new'', tag_position = [7, 10], tag_before = '' '',
                        tag_after = []\<rparr>],
         note_Files = [],
         note_Images = [\<lparr>image_Location = ''b'', image_Description = ''d'',
                          image_position = [0, 7]\<rparr>],
         note_content = ''![d](a) #t''\<rparr>
       = Some ''![d](b) #new''"
proof -
  let ?note = "\<lparr>note_Tags = [\<lparr>tag_Name = ''new'', tag_position = [7, 10], tag_before = '' '',
                        tag_after = []\<rparr>],
         note_Files = [],
         note_Images = [\<lparr>image_Location = ''b'', image_Description = ''d'',
                          image_position = [0, 7]\<rparr>],
         note_content = ''![d](a) #t''\<rparr>"
  have spans: "note_spans ?note = [[7, 10], [0, 7]]"
    by (simp add: note_spans_def)
  have h1: "list_all (span_in (note_content ?note)) (note_spans ?note)"
    by (simp add: spans span_in_def)
  have h2: "nonoverlapping (note_spans ?note)"
    by (simp add: spans disjoint_spans_def)
  have "render_by_start ?note = ''![d](b) #new''"
    by (simp add: render_by_start_def note_items_def Tag_String_def Image_String_def
          escapePath_bytes shouldEscape_def)
  with C2_WriteNote_in_span_order [OF h1 h2] h1 h2 show ?thesis
    by (simp add: spans)
qed

text \<open>
  C4 (amended). For every input text the spans of the tags are not empty, lie in the text,
  are in ascending order and do not overlap one another; so are the spans of the files, and
  so are the spans of the images. Spans of different collections can overlap: a tag in the
  description of an image lies inside the span of the image.
\<close>

theorem C4_spans_of_each_collection:
  "spans_between 0 (length content) (map tag_position (note_Tags (LoadNote T content)))
   \<and> spans_between 0 (length content) (map file_position (note_Files (LoadNote T content)))
   \<and> spans_between 0 (length content) (map image_position (note_Images (LoadNote T content)))
   \<and> nonoverlapping (map tag_position (note_Tags (LoadNote T content)))
   \<and> nonoverlapping (map file_position (note_Files (LoadNote T content)))
   \<and> nonoverlapping (map image_position (note_Images (LoadNote T content)))"
  using LoadNote_spans [of content T] LoadNote_spans [of content T, THEN spans_between_nonoverlapping]
  by simp

theorem C4_spans_counterexample:
  "note_spans (LoadNote tables_Latin1 ''![ #a ](b)'') = [[2, 6], [0, 10]]
   \<and> \<not> disjoint_spans [2, 6] [0, 10]
   \<and> \<not> nonoverlapping (note_spans (LoadNote tables_Latin1 ''![ #a ](b)''))"
  by (simp add: load_simps note_spans_def disjoint_spans_def)

text \<open>
  C10 (amended). For every string \<open>p\<close>, \<^verbatim>\<open>url.PathUnescape(escapePath(p))\<close> succeeds and
  returns \<open>p\<close>. Consequently, parsing what \<^verbatim>\<open>Image.String\<close> writes for an image with a location
  that is not empty and a description without \<^verbatim>\<open>]\<close> yields that image again, with the same
  location. What \<^verbatim>\<open>File.String\<close> writes is a Markdown link, which the file pattern does not
  match: parsing it yields no file (for a name without \<^verbatim>\<open><\<close>, as every parsed name is).
\<close>

theorem C10_unescape_after_escapePath:
  "PathUnescape (escapePath p) = Some p
   \<and> (loc \<noteq> [] \<and> CHR '']'' \<notin> set d \<longrightarrow>
        note_Images (LoadNote T (Image_String
          \<lparr>image_Location = loc, image_Description = d, image_position = pos\<rparr>))
        = [\<lparr>image_Location = loc, image_Description = d,
            image_position = [0, length d + length (escapePath loc) + 5]\<rparr>])
   \<and> (CHR ''<'' \<notin> set (file_Name file) \<longrightarrow> note_Files (LoadNote T (File_String file)) = [])"
proof (intro conjI impI)
  show "PathUnescape (escapePath p) = Some p" by (rule PathUnescape_escapePath)
next
  assume a: "loc \<noteq> [] \<and> CHR '']'' \<notin> set d"
  then have "escapePath loc \<noteq> []" by (simp add: escapePath_nonempty)
  moreover have "CHR ''('' \<notin> set (escapePath loc)" using escapePath_chars(1) by blast
  ultimately have "note_Images (LoadNote T (''!['' @ d @ ''](''  @ escapePath loc @ '')'')) =
     [\<lparr>image_Location = PathUnescape_ignoring_error (escapePath loc), image_Description = d,
       image_position = [0, length d + length (escapePath loc) + 5]\<rparr>]"
    using a by (intro LoadNote_image_alone) simp_all
  then show "note_Images (LoadNote T (Image_String
          \<lparr>image_Location = loc, image_Description = d, image_position = pos\<rparr>))
        = [\<lparr>image_Location = loc, image_Description = d,
            image_position = [0, length d + length (escapePath loc) + 5]\<rparr>]"
    by (simp add: Image_String_def PathUnescape_ignoring_error_def PathUnescape_escapePath)
next
  assume "CHR ''<'' \<notin> set (file_Name file)"
  then have "CHR ''<'' \<notin> set (File_String file)"
    using escapePath_chars(2) [of "CHR ''<''" "file_Location file"]
    by (auto simp: File_String_def)
  then have "FindAllStringIndex reFile (File_String file) = []" by (rule reFile_none)
  then show "note_Files (LoadNote T (File_String file)) = []" by (simp add: LoadNote_def)
qed

theorem C10_unescape_after_escapePath_witness:
  "''my dir/a(1).png'' \<noteq> [] \<and> CHR '']'' \<notin> set ''pic''
   \<and> note_Images (LoadNote tables_Latin1 (Image_String
        \<lparr>image_Location = ''my dir/a(1).png'', image_Description = ''pic'',
         image_position = [3, 9]\<rparr>))
      = [\<lparr>image_Location = ''my dir/a(1).png'', image_Description = ''pic'',
          image_position = [0, 29]\<rparr>]
   \<and> CHR ''<'' \<notin> set ''my file.pdf''
   \<and> note_Files (LoadNote tables_Latin1 (File_String
        \<lparr>file_Location = ''note/my file.pdf'', file_Name = ''my file.pdf'',
         file_position = [0, 44]\<rparr>)) = []
   \<and> PathUnescape (escapePath ''my dir/a(1).png'') = Some ''my dir/a(1).png''"
proof -
  have len: "length (escapePath ''my dir/a(1).png'') = 21"
    by (simp add: escapePath_bytes shouldEscape_def)
  from C10_unescape_after_escapePath
    [of "''my dir/a(1).png''" "''my dir/a(1).png''" "''pic''" tables_Latin1 "[3, 9]"
        "\<lparr>file_Location = ''note/my file.pdf'', file_Name = ''my file.pdf'',
          file_position = [0, 44]\<rparr>"]
  show ?thesis by (simp add: len)
qed

theorem C10_reparse_counterexample:
  "File_String \<lparr>file_Location = ''a'', file_Name = ''b'', file_position = [0, 17]\<rparr> = ''[b](a)''
   \<and> note_Files (LoadNote tables_Latin1 ''[b](a)'') = []
   \<and> Image_String \<lparr>image_Location = [], image_Description = ''d'', image_position = [0, 6]\<rparr>
       = ''![d]()''
   \<and> note_Images (LoadNote tables_Latin1 ''![d]()'') = []"
  by (simp add: load_simps File_String_def Image_String_def escapePath_bytes shouldEscape_def)

text \<open>
  C5 (amended). When the percent-decoding of the captured path fails, \<^verbatim>\<open>NewFile\<close> and
  \<^verbatim>\<open>NewImage\<close> set the location to the empty string (the error is dropped, and the library
  returns the empty string with it); the name or description and the position are set as
  usual. The parse goes on and produces the item: a text that is one file link, or one
  image, with such a path yields that one item, with the empty location.
\<close>

theorem C5_location_after_failed_decoding:
  "(FindStringSubmatch reFile content = Some parts \<and> PathUnescape (parts ! 1) = None \<longrightarrow>
      NewFile content position
        = \<lparr>file_Location = [], file_Name = parts ! 2, file_position = position\<rparr>)
   \<and> (FindStringSubmatch reImage content = Some parts \<and> PathUnescape (parts ! 2) = None \<longrightarrow>
      NewImage content position
        = \<lparr>image_Location = [], image_Description = parts ! 1, image_position = position\<rparr>)
   \<and> (PathUnescape u = None \<and> 0 < k \<and> q1 \<in> {CHR 0x27, CHR 0x22} \<and> q2 \<in> {CHR 0x27, CHR 0x22}
        \<and> CHR 0x27 \<notin> set u \<and> CHR 0x22 \<notin> set u \<and> nm \<noteq> [] \<and> CHR ''<'' \<notin> set nm \<longrightarrow>
      note_Files (LoadNote T
        (''<a'' @ replicate k CHR '' '' @ ''href='' @ q1 # u @ q2 # ''>'' @ nm @ ''</a>''))
        = [\<lparr>file_Location = [], file_Name = nm,
            file_position = [0, k + length u + length nm + 14]\<rparr>])
   \<and> (PathUnescape u = None \<and> CHR '']'' \<notin> set d \<and> CHR ''('' \<notin> set u \<longrightarrow>
      note_Images (LoadNote T (''!['' @ d @ ''](''  @ u @ '')''))
        = [\<lparr>image_Location = [], image_Description = d,
            image_position = [0, length d + length u + 5]\<rparr>])"
proof (intro conjI impI)
  assume "FindStringSubmatch reFile content = Some parts \<and> PathUnescape (parts ! 1) = None"
  then show "NewFile content position
        = \<lparr>file_Location = [], file_Name = parts ! 2, file_position = position\<rparr>"
    by (simp add: NewFile_def PathUnescape_ignoring_error_def)
next
  assume "FindStringSubmatch reImage content = Some parts \<and> PathUnescape (parts ! 2) = None"
  then show "NewImage content position
        = \<lparr>image_Location = [], image_Description = parts ! 1, image_position = position\<rparr>"
    by (simp add: NewImage_def PathUnescape_ignoring_error_def)
next
  assume a: "PathUnescape u = None \<and> 0 < k \<and> q1 \<in> {CHR 0x27, CHR 0x22} \<and> q2 \<in> {CHR 0x27, CHR 0x22}
        \<and> CHR 0x27 \<notin> set u \<and> CHR 0x22 \<notin> set u \<and> nm \<noteq> [] \<and> CHR ''<'' \<notin> set nm"
  then have "u \<noteq> []" by (auto simp: PathUnescape_def)
  moreover have "\<forall>c\<in>set u. of_char c \<noteq> (39::nat) \<and> of_char c \<noteq> (34::nat)"
  proof
    fix c assume "c \<in> set u"
    with a have "c \<noteq> CHR 0x27" "c \<noteq> CHR 0x22" by auto
    then show "of_char c \<noteq> (39::nat) \<and> of_char c \<noteq> (34::nat)"
      using of_char_eq_iff [of c "CHR 0x27", where ?'a = nat]
        of_char_eq_iff [of c "CHR 0x22", where ?'a = nat] by simp
  qed
  moreover have "of_char q1 = (39::nat) \<or> of_char q1 = (34::nat)"
    and "of_char q2 = (39::nat) \<or> of_char q2 = (34::nat)"
    using a by auto
  ultimately have "note_Files (LoadNote T
        (''<a'' @ replicate k CHR '' '' @ ''href='' @ q1 # u @ q2 # ''>'' @ nm @ ''</a>''))
        = [\<lparr>file_Location = PathUnescape_ignoring_error u, file_Name = nm,
            file_position = [0, k + length u + length nm + 14]\<rparr>]"
    using a by (intro LoadNote_file_alone) simp_all
  with a show "note_Files (LoadNote T
        (''<a'' @ replicate k CHR '' '' @ ''href='' @ q1 # u @ q2 # ''>'' @ nm @ ''</a>''))
        = [\<lparr>file_Location = [], file_Name = nm,
            file_position = [0, k + length u + length nm + 14]\<rparr>]"
    by (simp add: PathUnescape_ignoring_error_def)
next
  assume a: "PathUnescape u = None \<and> CHR '']'' \<notin> set d \<and> CHR ''('' \<notin> set u"
  then have "u \<noteq> []" by (auto simp: PathUnescape_def)
  with a have "note_Images (LoadNote T (''!['' @ d @ ''](''  @ u @ '')''))
        = [\<lparr>image_Location = PathUnescape_ignoring_error u, image_Description = d,
            image_position = [0, length d + length u + 5]\<rparr>]"
    by (intro LoadNote_image_alone) simp_all
  with a show "note_Images (LoadNote T (''!['' @ d @ ''](''  @ u @ '')''))
        = [\<lparr>image_Location = [], image_Description = d,
            image_position = [0, length d + length u + 5]\<rparr>]"
    by (simp add: PathUnescape_ignoring_error_def)
qed

theorem C5_location_after_failed_decoding_witness:
  \<open>FindStringSubmatch reFile ''<a href="%zz">b</a>'' = Some [''<a href="%zz">b</a>'', ''%zz'', ''b'']
   \<and> PathUnescape ([''<a href="%zz">b</a>'', ''%zz'', ''b''] ! 1) = None
   \<and> NewFile ''<a href="%zz">b</a>'' [0, 19]
       = \<lparr>file_Location = [], file_Name = ''b'', file_position = [0, 19]\<rparr>
   \<and> FindStringSubmatch reImage ''![d](%zz)'' = Some [''![d](%zz)'', ''d'', ''%zz'']
   \<and> PathUnescape ([''![d](%zz)'', ''d'', ''%zz''] ! 2) = None
   \<and> NewImage ''![d](%zz)'' [0, 9]
       = \<lparr>image_Location = [], image_Description = ''d'', image_position = [0, 9]\<rparr>
   \<and> PathUnescape ''%zz'' = None
   \<and> note_Files (LoadNote tables_Latin1 ''<a href="%zz">b</a>'')
       = [\<lparr>file_Location = [], file_Name = ''b'', file_position = [0, 19]\<rparr>]
   \<and> note_Images (LoadNote tables_Latin1 ''![d](%zz)'')
       = [\<lparr>image_Location = [], image_Description = ''d'', image_position = [0, 9]\<rparr>]\<close>
proof -
  have f: \<open>FindStringSubmatch reFile ''<a href="%zz">b</a>''
      = Some [''<a href="%zz">b</a>'', ''%zz'', ''b'']\<close>
    by (simp add: load_simps)
  have i: "FindStringSubmatch reImage ''![d](%zz)'' = Some [''![d](%zz)'', ''d'', ''%zz'']"
    by (simp add: load_simps)
  have z: "PathUnescape ''%zz'' = None"
    by (simp add: PathUnescape_def ishex_def)
  from C5_location_after_failed_decoding
    [of \<open>''<a href="%zz">b</a>''\<close> \<open>[''<a href="%zz">b</a>'', ''%zz'', ''b'']\<close> "[0, 19]"
        "''%zz''" 1 "CHR 0x22" "CHR 0x22" "''b''" tables_Latin1 "''d''"]
    C5_location_after_failed_decoding
    [of "''![d](%zz)''" "[''![d](%zz)'', ''d'', ''%zz'']" "[0, 9]"
        "''%zz''" 1 "CHR 0x22" "CHR 0x22" "''b''" tables_Latin1 "''d''"]
  show ?thesis using f i z by simp
qed

theorem C5_raw_location_counterexample:
  \<open>PathUnescape ''%zz'' = None
   \<and> file_Location (NewFile ''<a href="%zz">b</a>'' [0, 19]) = []
   \<and> file_Location (NewFile ''<a href="%zz">b</a>'' [0, 19]) \<noteq> ''%zz''
   \<and> image_Location (NewImage ''![d](%zz)'' [0, 9]) = []
   \<and> image_Location (NewImage ''![d](%zz)'' [0, 9]) \<noteq> ''%zz''\<close>
  by (simp add: load_simps)

text \<open>
  C6 (amended). The name of a tag is one letter followed by any number of characters among
  the letters, the numbers (\<^verbatim>\<open>\p{N}\<close>, the digits \<^verbatim>\<open>0-9\<close> among them) and
  \<^verbatim>\<open>- / $ _ % = + ( { [ \ @\<close>, \<section> and \<degree>: every tag that \<^verbatim>\<open>LoadNote\<close> returns has such a name,
  and every such name after a \<^verbatim>\<open>#\<close>, with nothing or one blank on each side, is
  recognized as the one tag of the text, with this name and these boundaries. On ASCII
  text a name is a letter \<^verbatim>\<open>A-Z a-z\<close> followed by characters of the class. A name cannot
  begin with a digit or a symbol.
\<close>

theorem C6_tag_names:
  "(\<forall>tag\<in>set (note_Tags (LoadNote T content)). is_tag_name T (tag_Name tag))
   \<and> (is_tag_name T name \<and> length pre \<le> 1 \<and> list_all is_blank pre
        \<and> length post \<le> 1 \<and> list_all is_blank post \<longrightarrow>
      note_Tags (LoadNote T (pre @ ''#'' @ name @ post)) =
        [\<lparr>tag_Name = name, tag_position = [0, length pre + 1 + length name + length post],
          tag_before = pre, tag_after = post\<rparr>])
   \<and> ((\<forall>b\<in>set (c # cs). of_char b < (128::nat)) \<longrightarrow>
      is_tag_name T (c # cs) =
        (((0x41 \<le> (of_char c :: nat) \<and> (of_char c :: nat) \<le> 0x5A)
          \<or> (0x61 \<le> (of_char c :: nat) \<and> (of_char c :: nat) \<le> 0x7A))
         \<and> list_all (\<lambda>b. tag_class T (of_char b)) cs))"
proof (intro conjI impI ballI)
  fix tag
  assume "tag \<in> set (note_Tags (LoadNote T content))"
  then show "is_tag_name T (tag_Name tag)" by (rule LoadNote_names)
next
  assume a: "is_tag_name T name \<and> length pre \<le> 1 \<and> list_all is_blank pre
        \<and> length post \<le> 1 \<and> list_all is_blank post"
  then have "note_Tags (LoadNote T (pre @ CHR ''#'' # name @ post)) =
        [\<lparr>tag_Name = name, tag_position = [0, length pre + 1 + length name + length post],
          tag_before = pre, tag_after = post\<rparr>]"
    by (intro LoadNote_one_tag) simp_all
  then show "note_Tags (LoadNote T (pre @ ''#'' @ name @ post)) =
        [\<lparr>tag_Name = name, tag_position = [0, length pre + 1 + length name + length post],
          tag_before = pre, tag_after = post\<rparr>]"
    by simp
next
  assume a: "\<forall>b\<in>set (c # cs). of_char b < (128::nat)"
  then have "runes (c # cs) = map of_char (c # cs)" by (rule runes_ascii)
  moreover have "(of_char c :: nat) < 128" using a by simp
  ultimately show "is_tag_name T (c # cs) =
        (((0x41 \<le> (of_char c :: nat) \<and> (of_char c :: nat) \<le> 0x5A)
          \<or> (0x61 \<le> (of_char c :: nat) \<and> (of_char c :: nat) \<le> 0x7A))
         \<and> list_all (\<lambda>b. tag_class T (of_char b)) cs)"
    by (simp add: is_tag_name_def is_L_def list_all_iff)
qed

theorem C6_tag_names_witness:
  "note_Tags (LoadNote tables_Latin1 ''x #a-1 y'') =
     [\<lparr>tag_Name = ''a-1'', tag_position = [1, 7], tag_before = '' '', tag_after = '' ''\<rparr>]
   \<and> is_tag_name tables_Latin1 ''a-1''
   \<and> note_Tags (LoadNote tables_Latin1 ('' '' @ ''#'' @ ''a-1'' @ [])) =
       [\<lparr>tag_Name = ''a-1'', tag_position = [0, 5], tag_before = '' '', tag_after = []\<rparr>]"
proof -
  have tags: "note_Tags (LoadNote tables_Latin1 ''x #a-1 y'') =
     [\<lparr>tag_Name = ''a-1'', tag_position = [1, 7], tag_before = '' '', tag_after = '' ''\<rparr>]"
    by (simp add: load_simps)
  have ascii: "\<forall>b\<in>set ''a-1''. of_char b < (128::nat)" by simp
  have cls: "list_all (\<lambda>b. tag_class tables_Latin1 (of_char b)) ''-1''"
    by (simp add: tag_class_def is_L_def is_N_def)
  have blank: "list_all is_blank '' ''" by (simp add: is_blank_def)
  note inst = C6_tag_names [of tables_Latin1 "''x #a-1 y''" "''a-1''" "'' ''" "[]" "CHR ''a''" "''-1''"]
  from inst ascii cls have name: "is_tag_name tables_Latin1 ''a-1''" by simp
  from inst tags have name': "is_tag_name tables_Latin1 ''a-1''" by simp
  from inst name blank
  have "note_Tags (LoadNote tables_Latin1 ('' '' @ ''#'' @ ''a-1'' @ [])) =
       [\<lparr>tag_Name = ''a-1'', tag_position = [0, 5], tag_before = '' '', tag_after = []\<rparr>]"
    by simp
  with tags name name' show ?thesis by simp
qed

theorem C6_leading_digit_counterexample:
  "note_Tags (LoadNote tables_Latin1 ''#1'') = []
   \<and> note_Tags (LoadNote tables_Latin1 ''#-a'') = []
   \<and> note_Tags (LoadNote tables_Latin1 '' #2021 '') = []
   \<and> \<not> is_tag_name tables_Latin1 ''1''"
  by (simp add: load_simps is_tag_name_def runes_ascii)

text \<open>
  C7. Parsing \<^verbatim>\<open>#one #two\<close> yields two tags, \<^verbatim>\<open>one\<close> and \<^verbatim>\<open>two\<close>: the match of the first
  takes the blank, as its third group, and the second match begins at the \<^verbatim>\<open>#\<close> after it.
  The same holds for any two names and any one character of ASCII whitespace between them:
  a blank is the boundary after the first tag, a newline is left out of both matches, and
  in both cases the two tags are found, at different positions.
\<close>

theorem C7_adjacent_tags:
  "note_Tags (LoadNote T ''#one #two'') =
     [\<lparr>tag_Name = ''one'', tag_position = [0, 5], tag_before = [], tag_after = '' ''\<rparr>,
      \<lparr>tag_Name = ''two'', tag_position = [5, 9], tag_before = [], tag_after = []\<rparr>]
   \<and> (is_tag_name T n1 \<and> is_tag_name T n2 \<and> (is_blank w \<or> of_char w = (10::nat)) \<longrightarrow>
        note_Tags (LoadNote T (''#'' @ n1 @ [w] @ ''#'' @ n2)) =
          [\<lparr>tag_Name = n1,
            tag_position = [0, length n1 + (if of_char w = (10::nat) then 1 else 2)],
            tag_before = [], tag_after = (if of_char w = (10::nat) then [] else [w])\<rparr>,
           \<lparr>tag_Name = n2, tag_position = [length n1 + 2, length n1 + length n2 + 3],
            tag_before = [], tag_after = []\<rparr>]
        \<and> distinct (note_Tags (LoadNote T (''#'' @ n1 @ [w] @ ''#'' @ n2))))"
proof (intro conjI impI)
  show "note_Tags (LoadNote T ''#one #two'') =
     [\<lparr>tag_Name = ''one'', tag_position = [0, 5], tag_before = [], tag_after = '' ''\<rparr>,
      \<lparr>tag_Name = ''two'', tag_position = [5, 9], tag_before = [], tag_after = []\<rparr>]"
    by (simp add: load_simps)
next
  assume a: "is_tag_name T n1 \<and> is_tag_name T n2 \<and> (is_blank w \<or> of_char w = (10::nat))"
  then have "note_Tags (LoadNote T (CHR ''#'' # n1 @ w # CHR ''#'' # n2)) =
     [\<lparr>tag_Name = n1, tag_position = [0, length n1 + (if of_char w = (10::nat) then 1 else 2)],
       tag_before = [], tag_after = (if of_char w = (10::nat) then [] else [w])\<rparr>,
      \<lparr>tag_Name = n2, tag_position = [length n1 + 2, length n1 + length n2 + 3],
       tag_before = [], tag_after = []\<rparr>]"
    by (intro LoadNote_two_tags) simp_all
  then show tags: "note_Tags (LoadNote T (''#'' @ n1 @ [w] @ ''#'' @ n2)) =
     [\<lparr>tag_Name = n1, tag_position = [0, length n1 + (if of_char w = (10::nat) then 1 else 2)],
       tag_before = [], tag_after = (if of_char w = (10::nat) then [] else [w])\<rparr>,
      \<lparr>tag_Name = n2, tag_position = [length n1 + 2, length n1 + length n2 + 3],
       tag_before = [], tag_after = []\<rparr>]"
    by simp
  show "distinct (note_Tags (LoadNote T (''#'' @ n1 @ [w] @ ''#'' @ n2)))"
    unfolding tags by simp
qed

theorem C7_adjacent_tags_witness:
  "is_tag_name tables_Latin1 ''a/b'' \<and> is_tag_name tables_Latin1 ''c_1''
   \<and> is_blank (CHR 0x09)
   \<and> note_Tags (LoadNote tables_Latin1 (''#'' @ ''a/b'' @ [CHR 0x09] @ ''#'' @ ''c_1'')) =
       [\<lparr>tag_Name = ''a/b'', tag_position = [0, 5], tag_before = [], tag_after = [CHR 0x09]\<rparr>,
        \<lparr>tag_Name = ''c_1'', tag_position = [5, 9], tag_before = [], tag_after = []\<rparr>]"
proof -
  have names: "is_tag_name tables_Latin1 ''a/b''" "is_tag_name tables_Latin1 ''c_1''"
    by (simp_all add: is_tag_name_def runes_ascii is_L_def is_N_def tag_class_def)
  have blank: "is_blank (CHR 0x09)" by (simp add: is_blank_def)
  from C7_adjacent_tags [of tables_Latin1 "''a/b''" "''c_1''" "CHR 0x09"] names blank
  show ?thesis by simp
qed

text \<open>
  C8. \<^verbatim>\<open>Tag.String\<close> writes the two boundaries alone when the name is empty, and the first
  boundary, \<^verbatim>\<open>#\<close>, the name and the second boundary otherwise. For the tag of \<^verbatim>\<open> #test/123 \<close>
  it writes the text again, and two blanks once the name is erased. Erasing the name of
  a tag of a parsed note and writing the note replaces the span of the tag by its two
  boundaries and leaves the text before and after the span as it is (for a text as in C1:
  no file link, images in the form \<^verbatim>\<open>Image.String\<close> writes, no tag inside an image).
\<close>

theorem C8_Tag_String:
  "Tag_String tag =
     (if tag_Name tag = [] then tag_before tag @ tag_after tag
      else tag_before tag @ ''#'' @ tag_Name tag @ tag_after tag)
   \<and> Tag_String (tag\<lparr>tag_Name := []\<rparr>) = tag_before tag @ tag_after tag
   \<and> Tag_String (NewTag T '' #test/123 '' position) = '' #test/123 ''
   \<and> Tag_String ((NewTag T '' #test/123 '' position)\<lparr>tag_Name := []\<rparr>) = ''  ''
   \<and> (i < length (note_Tags (LoadNote T content))
        \<and> note_Files (LoadNote T content) = []
        \<and> (\<forall>img\<in>set (note_Images (LoadNote T content)).
             Image_String img = substr content (image_position img ! 0) (image_position img ! 1))
        \<and> (\<forall>tag\<in>set (note_Tags (LoadNote T content)).
             \<forall>img\<in>set (note_Images (LoadNote T content)).
               disjoint_spans (tag_position tag) (image_position img)) \<longrightarrow>
      Option.bind (set_tag_Name i [] (LoadNote T content)) WriteNote =
        Some (take (tag_position (note_Tags (LoadNote T content) ! i) ! 0) content
              @ tag_before (note_Tags (LoadNote T content) ! i)
              @ tag_after (note_Tags (LoadNote T content) ! i)
              @ drop (tag_position (note_Tags (LoadNote T content) ! i) ! 1) content))"
proof (intro conjI impI)
  show "Tag_String tag =
     (if tag_Name tag = [] then tag_before tag @ tag_after tag
      else tag_before tag @ ''#'' @ tag_Name tag @ tag_after tag)"
    by (simp add: Tag_String_def)
  show "Tag_String (tag\<lparr>tag_Name := []\<rparr>) = tag_before tag @ tag_after tag"
    by (simp add: Tag_String_def)
  have t: "NewTag T '' #test/123 '' position =
      \<lparr>tag_Name = ''test/123'', tag_position = position, tag_before = '' '', tag_after = '' ''\<rparr>"
    by (simp add: load_simps)
  show "Tag_String (NewTag T '' #test/123 '' position) = '' #test/123 ''"
    by (simp add: t Tag_String_def)
  show "Tag_String ((NewTag T '' #test/123 '' position)\<lparr>tag_Name := []\<rparr>) = ''  ''"
    by (simp add: t Tag_String_def)
next
  assume a: "i < length (note_Tags (LoadNote T content))
        \<and> note_Files (LoadNote T content) = []
        \<and> (\<forall>img\<in>set (note_Images (LoadNote T content)).
             Image_String img = substr content (image_position img ! 0) (image_position img ! 1))
        \<and> (\<forall>tag\<in>set (note_Tags (LoadNote T content)).
             \<forall>img\<in>set (note_Images (LoadNote T content)).
               disjoint_spans (tag_position tag) (image_position img))"
  have "Option.bind (set_tag_Name i [] (LoadNote T content)) WriteNote =
     Some (take (tag_position (note_Tags (LoadNote T content) ! i) ! 0) content
           @ Tag_String ((note_Tags (LoadNote T content) ! i)\<lparr>tag_Name := []\<rparr>)
           @ drop (tag_position (note_Tags (LoadNote T content) ! i) ! 1) content)"
    using a by (intro WriteNote_tag_renamed) blast+
  then show "Option.bind (set_tag_Name i [] (LoadNote T content)) WriteNote =
        Some (take (tag_position (note_Tags (LoadNote T content) ! i) ! 0) content
              @ tag_before (note_Tags (LoadNote T content) ! i)
              @ tag_after (note_Tags (LoadNote T content) ! i)
              @ drop (tag_position (note_Tags (LoadNote T content) ! i) ! 1) content)"
    by (simp add: Tag_String_def)
qed

theorem C8_Tag_String_witness:
  "LoadNote tables_Latin1 ''#A ![d](a/b.png) #B #C'' =
      \<lparr>note_Tags =
         [\<lparr>tag_Name = ''A'', tag_position = [0, 3], tag_before = [], tag_after = '' ''\<rparr>,
          \<lparr>tag_Name = ''B'', tag_position = [16, 20], tag_before = '' '', tag_after = '' ''\<rparr>,
          \<lparr>tag_Name = ''C'', tag_position = [20, 22], tag_before = [], tag_after = []\<rparr>],
       note_Files = [],
       note_Images = [\<lparr>image_Location = ''a/b.png'', image_Description = ''d'',
                        image_position = [3, 16]\<rparr>],
       note_content = ''#A ![d](a/b.png) #B #C''\<rparr>
   \<and> Image_String \<lparr>image_Location = ''a/b.png'', image_Description = ''d'',
                      image_position = [3, 16]\<rparr>
       = substr ''#A ![d](a/b.png) #B #C'' 3 16
   \<and> disjoint_spans [0, 3] [3, 16] \<and> disjoint_spans [16, 20] [3, 16]
   \<and> disjoint_spans [20, 22] [3, 16]
   \<and> Option.bind (set_tag_Name 1 [] (LoadNote tables_Latin1 ''#A ![d](a/b.png) #B #C''))
        WriteNote = Some ''#A ![d](a/b.png)  #C''"
proof -
  let ?text = "''#A ![d](a/b.png) #B #C''"
  have load: "LoadNote tables_Latin1 ?text =
      \<lparr>note_Tags =
         [\<lparr>tag_Name = ''A'', tag_position = [0, 3], tag_before = [], tag_after = '' ''\<rparr>,
          \<lparr>tag_Name = ''B'', tag_position = [16, 20], tag_before = '' '', tag_after = '' ''\<rparr>,
          \<lparr>tag_Name = ''C'', tag_position = [20, 22], tag_before = [], tag_after = []\<rparr>],
       note_Files = [],
       note_Images = [\<lparr>image_Location = ''a/b.png'', image_Description = ''d'',
                        image_position = [3, 16]\<rparr>],
       note_content = ?text\<rparr>"
    by (simp add: load_simps)
  have img: "Image_String \<lparr>image_Location = ''a/b.png'', image_Description = ''d'',
                      image_position = [3, 16]\<rparr> = substr ?text 3 16"
    by (simp add: Image_String_def substr_def escapePath_bytes shouldEscape_def)
  have apart: "disjoint_spans [0, 3] [3, 16]" "disjoint_spans [16, 20] [3, 16]"
    "disjoint_spans [20, 22] [3, 16]"
    by (simp_all add: disjoint_spans_def)
  have hyp: "1 < length (note_Tags (LoadNote tables_Latin1 ?text))
        \<and> note_Files (LoadNote tables_Latin1 ?text) = []
        \<and> (\<forall>img\<in>set (note_Images (LoadNote tables_Latin1 ?text)).
             Image_String img = substr ?text (image_position img ! 0) (image_position img ! 1))
        \<and> (\<forall>tag\<in>set (note_Tags (LoadNote tables_Latin1 ?text)).
             \<forall>img\<in>set (note_Images (LoadNote tables_Latin1 ?text)).
               disjoint_spans (tag_position tag) (image_position img))"
    unfolding load using img apart by simp
  have "Option.bind (set_tag_Name 1 [] (LoadNote tables_Latin1 ?text)) WriteNote =
      Some ''#A ![d](a/b.png)  #C''"
    using C8_Tag_String [of _ tables_Latin1 _ 1 ?text] hyp
    unfolding load by simp
  with load img apart show ?thesis by blast
qed

end
